theory Spec2Isabelle
  imports Complex_Main "HOL-Library.Sublist"
begin

section \<open>The collaborators of the search\<close>

text \<open>
  The Monte Carlo tree search of \<^verbatim>\<open>MCTS_player\<close> (agent.h) is embedded here.  The
  board (\<^verbatim>\<open>board.h\<close>), the actions (\<^verbatim>\<open>action.h\<close>), the random number engine,
  the wall clock and the arithmetic of \<^verbatim>\<open>double\<close> are used by the search but are
  not defined by it; they are taken as parameters and collected in one record:
  \<^item> \<open>size_xy\<close> is \<^verbatim>\<open>board::size_x * board::size_y\<close>;
  \<^item> \<open>apply_place who pos b\<close> is \<^verbatim>\<open>action::place(pos, who).apply(b)\<close>: whether the
    result was \<^verbatim>\<open>board::legal\<close>, and the board as the call leaves it;
  \<^item> \<open>uniform_int hi e\<close> is \<^verbatim>\<open>std::uniform_int_distribution<size_t>(0, hi)(e)\<close>:
    the number drawn and the engine as the draw leaves it;
  \<^item> \<open>clock k\<close> is the value of \<^verbatim>\<open>dt\<close> (seconds since the start of
    \<^verbatim>\<open>take_action\<close>) read at the end of the \<open>k\<close>-th pass through the loop body;
  \<^item> \<open>'d\<close> is the type of the values of a \<^verbatim>\<open>double\<close>, and \<open>d_of_size\<close>, \<open>d_div\<close>,
    \<open>d_add\<close>, \<open>d_mul\<close>, \<open>d_log\<close>, \<open>d_sqrt\<close> and \<open>d_less\<close> are the operations
    on it that the score of a child is computed with: the conversion of a
    \<^verbatim>\<open>size_t\<close>, \<^verbatim>\<open>/\<close>, \<^verbatim>\<open>+\<close>, \<^verbatim>\<open>*\<close>, \<^verbatim>\<open>std::log\<close>, \<^verbatim>\<open>std::sqrt\<close> and \<^verbatim>\<open><\<close>, each
    with the rounding, the infinities and the NaN of the machine; \<open>d_quarter\<close> is
    the literal \<^verbatim>\<open>0.25\<close>.
\<close>

datatype piece_type = Black | White

datatype action = Action_none | Action_place nat piece_type

record ('b, 'g, 'd) world =
  size_xy :: nat
  apply_place :: "piece_type \<Rightarrow> nat \<Rightarrow> 'b \<Rightarrow> bool \<times> 'b"
  uniform_int :: "nat \<Rightarrow> 'g \<Rightarrow> nat \<times> 'g"
  clock :: "nat \<Rightarrow> real"
  d_of_size :: "nat \<Rightarrow> 'd"
  d_div :: "'d \<Rightarrow> 'd \<Rightarrow> 'd"
  d_add :: "'d \<Rightarrow> 'd \<Rightarrow> 'd"
  d_mul :: "'d \<Rightarrow> 'd \<Rightarrow> 'd"
  d_log :: "'d \<Rightarrow> 'd"
  d_sqrt :: "'d \<Rightarrow> 'd"
  d_less :: "'d \<Rightarrow> 'd \<Rightarrow> bool"
  d_quarter :: "'d"

text \<open>The recurring expression \<^verbatim>\<open>(bw==1) ? board::black : board::white\<close>.\<close>

definition colour :: "nat \<Rightarrow> piece_type" where
  "colour bw = (if bw = 1 then Black else White)"

text \<open>
  The recurring \<^verbatim>\<open>1 - x\<close> on a \<^verbatim>\<open>size_t\<close>, taken to be 64 bits wide: the other
  player for 0 and 1, and a wrap-around for anything else.
\<close>

definition one_minus :: "nat \<Rightarrow> nat" where
  "one_minus x = (2 ^ 64 + 1 - x) mod 2 ^ 64"

lemma one_minus_simps [simp]:
  "one_minus 0 = 1" "one_minus (Suc 0) = 0" "one_minus 1 = 0"
  by (simp_all add: one_minus_def)

text \<open>
  The enumeration loop that occurs in the constructor of \<^verbatim>\<open>Node\<close> and in the
  rollout: every position \<open>i\<close> below \<open>size_xy\<close>, in increasing order, at which a
  copy of the board accepts a stone of the colour of \<open>bw\<close>.
\<close>

definition legal_positions :: "('b, 'g, 'd) world \<Rightarrow> 'b \<Rightarrow> nat \<Rightarrow> nat list" where
  "legal_positions W b bw =
     filter (\<lambda>i. fst (apply_place W (colour bw) i b)) [0..<size_xy W]"

text \<open>
  What C++ leaves undefined is a value of the model: dereferencing an iterator that
  is not below \<^verbatim>\<open>end()\<close>, and incrementing an \<^verbatim>\<open>int\<close> that holds
  \<^verbatim>\<open>INT_MAX\<close>.  No function of the search throws.
\<close>

datatype fault = Past_the_end | Signed_overflow

section \<open>Nodes\<close>

text \<open>
  \<^verbatim>\<open>MCTS_player::Node\<close>.  The fields keep their names (Isabelle does not admit the
  trailing underscore, so \<^verbatim>\<open>visits_\<close> is \<open>node_visits\<close>).  The children are owned
  by value in a vector, so a node is a tree.  \<^verbatim>\<open>parent_\<close> is the position of the
  node in that tree: the search only follows it from a node it has reached from the
  root in the same pass, and a vector of children only grows while none of its
  elements has children of its own (a node is passed through by the selection only
  once it has no untried move left, and it receives children only while it has
  one; see \<open>pass_start_grandchildren\<close>), so no parent pointer that is followed
  has been invalidated by a reallocation.  \<^verbatim>\<open>rave_wins_\<close> and \<^verbatim>\<open>rave_visits_\<close>
  are never read or written and are left out.  The counters are \<^verbatim>\<open>size_t\<close>; each
  is incremented at most once per pass of a loop whose counter is an \<^verbatim>\<open>int\<close>
  (\<open>search_passes_le_INT_MAX\<close>, \<open>search_visits_bound\<close>), so they cannot wrap
  and are natural numbers here.  The two \<^verbatim>\<open>double\<close> members hold values of the
  type \<open>'d\<close> of the world; \<^verbatim>\<open>uct_score_\<close> has no initialiser, so it holds no
  value (\<open>None\<close>) until it is assigned.
\<close>

datatype ('g, 'd) node = Node
  (node_engine: 'g)
  (node_children: "('g, 'd) node list")
  (node_moves: "nat list")
  (node_bw: nat)
  (node_pos: nat)
  (node_exploration_constant: 'd)
  (node_visits: nat)
  (node_wins: nat)
  (node_uct_score: "'d option")

fun set_engine :: "'g \<Rightarrow> ('g, 'd) node \<Rightarrow> ('g, 'd) node" where
  "set_engine e' (Node e cs ms bw pos C v w s) = Node e' cs ms bw pos C v w s"

fun set_children :: "('g, 'd) node list \<Rightarrow> ('g, 'd) node \<Rightarrow> ('g, 'd) node" where
  "set_children cs' (Node e cs ms bw pos C v w s) = Node e cs' ms bw pos C v w s"

fun set_moves :: "nat list \<Rightarrow> ('g, 'd) node \<Rightarrow> ('g, 'd) node" where
  "set_moves ms' (Node e cs ms bw pos C v w s) = Node e cs ms' bw pos C v w s"

fun set_uct_score :: "'d option \<Rightarrow> ('g, 'd) node \<Rightarrow> ('g, 'd) node" where
  "set_uct_score s' (Node e cs ms bw pos C v w s) = Node e cs ms bw pos C v w s'"

text \<open>
  The constructor.  It copies the engine it is given (the parameter is passed by
  value), lists the moves of the opponent of \<open>who\<close>, and leaves the default member
  initialisers in place: \<^verbatim>\<open>exploration_constant = 0.25\<close>, \<^verbatim>\<open>visits_ = 0\<close>,
  \<^verbatim>\<open>wins_ = 0\<close>.  \<^verbatim>\<open>uct_score_\<close> is not initialised.
\<close>

definition new_node :: "('b, 'g, 'd) world \<Rightarrow> 'g \<Rightarrow> 'b \<Rightarrow> nat \<Rightarrow> nat \<Rightarrow> ('g, 'd) node" where
  "new_node W e b who pos =
     Node e [] (legal_positions W b (one_minus who)) who pos (d_quarter W) 0 0 None"

definition has_untried_moves :: "('g, 'd) node \<Rightarrow> bool" where
  "has_untried_moves n = (node_moves n \<noteq> [])"

definition has_children :: "('g, 'd) node \<Rightarrow> bool" where
  "has_children n = (node_children n \<noteq> [])"

definition get_move :: "('g, 'd) node \<Rightarrow> nat \<times> nat" where
  "get_move n = (node_bw n, node_pos n)"

definition get_wins_visits :: "('g, 'd) node \<Rightarrow> nat \<times> nat" where
  "get_wins_visits n = (node_wins n, node_visits n)"

text \<open>\<^verbatim>\<open>update\<close>: \<^verbatim>\<open>++visits_; wins_ += win ? 1 : 0;\<close>\<close>

fun update :: "bool \<Rightarrow> ('g, 'd) node \<Rightarrow> ('g, 'd) node" where
  "update win (Node e cs ms bw pos C v w s) =
     Node e cs ms bw pos C (v + 1) (w + (if win then 1 else 0)) s"

text \<open>
  \<^verbatim>\<open>pop_untried_move\<close> draws an index from the node's own engine \<^verbatim>\<open>engine_\<close>,
  erases the move at that index and returns \<^verbatim>\<open>(1-bw_, pos)\<close>.  With no move left the
  source builds the distribution on \<^verbatim>\<open>(0, size_t(-1))\<close> and dereferences whatever
  iterator the draw gives; in the model a draw that is not an index of the vector is
  the fault, whatever the bound of the distribution was.
\<close>

definition pop_untried_move ::
  "('b, 'g, 'd) world \<Rightarrow> ('g, 'd) node \<Rightarrow> fault + ((nat \<times> nat) \<times> ('g, 'd) node)" where
  "pop_untried_move W n =
     (let ms = node_moves n;
          (k, e') = uniform_int W (length ms - 1) (node_engine n)
      in if k < length ms
         then Inr ((one_minus (node_bw n), ms ! k),
                   set_engine e' (set_moves (take k ms @ drop (Suc k) ms) n))
         else Inl Past_the_end)"

text \<open>
  \<^verbatim>\<open>add_child\<close> constructs the child from a copy of the engine it is handed and
  appends it; the pointer it returns is the index of the last child.
\<close>

definition add_child ::
  "('b, 'g, 'd) world \<Rightarrow> 'g \<Rightarrow> 'b \<Rightarrow> nat \<Rightarrow> nat \<Rightarrow> ('g, 'd) node \<Rightarrow> ('g, 'd) node \<times> nat" where
  "add_child W e b who pos n =
     (let cs = node_children n @ [new_node W e b who pos]
      in (set_children cs n, length cs - 1))"

subsection \<open>Selection by UCT\<close>

text \<open>
  \<^verbatim>\<open>std::max_element(first, last, comp)\<close> keeps the first position and moves to a
  later one only when \<open>comp\<close> ranks the kept element strictly below it; on an empty
  range it returns \<open>last\<close>.  Positions are indices, so \<open>last\<close> is the length.
\<close>

fun max_scan :: "('a \<Rightarrow> 'a \<Rightarrow> bool) \<Rightarrow> 'a \<Rightarrow> nat \<Rightarrow> nat \<Rightarrow> 'a list \<Rightarrow> nat" where
  "max_scan cmp largest li i [] = li"
| "max_scan cmp largest li i (x # xs) =
     (if cmp largest x then max_scan cmp x i (Suc i) xs
      else max_scan cmp largest li (Suc i) xs)"

definition max_element :: "('a \<Rightarrow> 'a \<Rightarrow> bool) \<Rightarrow> 'a list \<Rightarrow> nat" where
  "max_element cmp xs = (case xs of [] \<Rightarrow> 0 | x # r \<Rightarrow> max_scan cmp x 0 1 r)"

text \<open>
  The score that \<open>get_UCT_child\<close> stores in a child,
  \<^verbatim>\<open>double(child.wins_) / double(child.visits_) +
  std::sqrt(std::log(double(visits_)) / child.visits_) * exploration_constant\<close>,
  operation by operation: \<open>pv\<close> is \<^verbatim>\<open>visits_\<close> of the node the call is made on,
  \<open>C\<close> its \<^verbatim>\<open>exploration_constant\<close>, and the division by \<^verbatim>\<open>child.visits_\<close>
  converts it as the casts do.
\<close>

definition uct :: "('b, 'g, 'd) world \<Rightarrow> nat \<Rightarrow> 'd \<Rightarrow> ('g, 'd) node \<Rightarrow> 'd" where
  "uct W pv C child =
     d_add W
       (d_div W (d_of_size W (node_wins child)) (d_of_size W (node_visits child)))
       (d_mul W
          (d_sqrt W (d_div W (d_log W (d_of_size W pv)) (d_of_size W (node_visits child))))
          C)"

text \<open>
  \<^verbatim>\<open>get_UCT_child\<close> first writes \<^verbatim>\<open>uct_score_\<close> of every child, then takes
  \<^verbatim>\<open>&*std::max_element(...)\<close> on the stored scores, which the comparison reads
  back (each of them has just been assigned).  The result is the node as the
  writes leave it and the index of the child pointed to.  On an empty vector
  \<^verbatim>\<open>max_element\<close> returns \<^verbatim>\<open>end()\<close>, which the source dereferences unchecked.
\<close>

definition get_UCT_child ::
  "('b, 'g, 'd) world \<Rightarrow> ('g, 'd) node \<Rightarrow> fault + (('g, 'd) node \<times> nat)" where
  "get_UCT_child W n =
     (let cs = map (\<lambda>child. set_uct_score
                     (Some (uct W (node_visits n) (node_exploration_constant n) child)) child)
                   (node_children n);
          i = max_element
                (\<lambda>lhs rhs. d_less W (the (node_uct_score lhs)) (the (node_uct_score rhs))) cs
      in if i < length cs then Inr (set_children cs n, i) else Inl Past_the_end)"

subsection \<open>Selectors of the node operations\<close>

lemma set_uct_score_sel [simp]:
  "node_uct_score (set_uct_score s n) = s"
  "node_visits (set_uct_score s n) = node_visits n"
  "node_wins (set_uct_score s n) = node_wins n"
  "node_children (set_uct_score s n) = node_children n"
  "node_moves (set_uct_score s n) = node_moves n"
  "node_bw (set_uct_score s n) = node_bw n"
  "node_pos (set_uct_score s n) = node_pos n"
  "node_engine (set_uct_score s n) = node_engine n"
  "node_exploration_constant (set_uct_score s n) = node_exploration_constant n"
  by (cases n; simp)+

lemma set_children_sel [simp]:
  "node_children (set_children cs n) = cs"
  "node_visits (set_children cs n) = node_visits n"
  "node_wins (set_children cs n) = node_wins n"
  "node_uct_score (set_children cs n) = node_uct_score n"
  "node_moves (set_children cs n) = node_moves n"
  "node_bw (set_children cs n) = node_bw n"
  "node_pos (set_children cs n) = node_pos n"
  "node_engine (set_children cs n) = node_engine n"
  "node_exploration_constant (set_children cs n) = node_exploration_constant n"
  by (cases n; simp)+

lemma set_moves_sel [simp]:
  "node_moves (set_moves ms n) = ms"
  "node_children (set_moves ms n) = node_children n"
  "node_visits (set_moves ms n) = node_visits n"
  "node_wins (set_moves ms n) = node_wins n"
  "node_uct_score (set_moves ms n) = node_uct_score n"
  "node_bw (set_moves ms n) = node_bw n"
  "node_pos (set_moves ms n) = node_pos n"
  "node_engine (set_moves ms n) = node_engine n"
  "node_exploration_constant (set_moves ms n) = node_exploration_constant n"
  by (cases n; simp)+

lemma set_engine_sel [simp]:
  "node_engine (set_engine e n) = e"
  "node_children (set_engine e n) = node_children n"
  "node_moves (set_engine e n) = node_moves n"
  "node_visits (set_engine e n) = node_visits n"
  "node_wins (set_engine e n) = node_wins n"
  "node_uct_score (set_engine e n) = node_uct_score n"
  "node_bw (set_engine e n) = node_bw n"
  "node_pos (set_engine e n) = node_pos n"
  "node_exploration_constant (set_engine e n) = node_exploration_constant n"
  by (cases n; simp)+

lemma update_sel [simp]:
  "node_visits (update win n) = node_visits n + 1"
  "node_wins (update win n) = node_wins n + (if win then 1 else 0)"
  "node_children (update win n) = node_children n"
  "node_moves (update win n) = node_moves n"
  "node_bw (update win n) = node_bw n"
  "node_pos (update win n) = node_pos n"
  "node_engine (update win n) = node_engine n"
  "node_uct_score (update win n) = node_uct_score n"
  "node_exploration_constant (update win n) = node_exploration_constant n"
  by (cases n; simp)+

lemma new_node_sel [simp]:
  "node_engine (new_node W e b who pos) = e"
  "node_children (new_node W e b who pos) = []"
  "node_moves (new_node W e b who pos) = legal_positions W b (one_minus who)"
  "node_bw (new_node W e b who pos) = who"
  "node_pos (new_node W e b who pos) = pos"
  "node_exploration_constant (new_node W e b who pos) = d_quarter W"
  "node_uct_score (new_node W e b who pos) = None"
  "node_visits (new_node W e b who pos) = 0"
  "node_wins (new_node W e b who pos) = 0"
  by (simp_all add: new_node_def)

section \<open>The tree under the root\<close>

text \<open>
  A pointer to a node is the list of child indices that leads to it from the root;
  the pointer to the root is the empty list, and \<^verbatim>\<open>get_parent()\<close> drops the last
  index.  \<open>node_at\<close> dereferences such a pointer, \<open>modify_at\<close> writes through it.
\<close>

fun node_at :: "('g, 'd) node \<Rightarrow> nat list \<Rightarrow> ('g, 'd) node" where
  "node_at n [] = n"
| "node_at n (i # p) = node_at (node_children n ! i) p"

fun modify_at :: "(('g, 'd) node \<Rightarrow> ('g, 'd) node) \<Rightarrow> nat list \<Rightarrow> ('g, 'd) node \<Rightarrow> ('g, 'd) node" where
  "modify_at f [] n = f n"
| "modify_at f (i # p) n =
     set_children ((node_children n)[i := modify_at f p (node_children n ! i)]) n"

fun valid_path :: "('g, 'd) node \<Rightarrow> nat list \<Rightarrow> bool" where
  "valid_path n [] = True"
| "valid_path n (i # p) =
     (i < length (node_children n) \<and> valid_path (node_children n ! i) p)"

text \<open>The number of nodes of a tree: what the descent of the selection decreases.\<close>

fun node_count :: "('g, 'd) node \<Rightarrow> nat" where
  "node_count (Node e cs ms bw pos C v w s) = Suc (sum_list (map node_count cs))"

lemma node_count_set_uct_score [simp]: "node_count (set_uct_score s n) = node_count n"
  by (cases n) simp

lemma node_count_child:
  "i < length (node_children n) \<Longrightarrow> node_count (node_children n ! i) < node_count n"
proof (cases n)
  case (Node e cs ms bw pos C v w s)
  assume "i < length (node_children n)"
  then have "cs ! i \<in> set cs" using Node by simp
  then have "node_count (cs ! i) \<le> sum_list (map node_count cs)"
    by (simp add: member_le_sum_list)
  then show ?thesis using Node by simp
qed

lemma get_UCT_child_smaller:
  assumes "get_UCT_child W n = Inr (n1, i)"
  shows "node_count (node_children n1 ! i) < node_count n"
proof -
  from assms have i: "i < length (node_children n)"
    and n1: "node_children n1 = map (\<lambda>child. set_uct_score
        (Some (uct W (node_visits n) (node_exploration_constant n) child)) child) (node_children n)"
    by (auto simp: get_UCT_child_def Let_def split: if_splits)
  from i n1 have "node_count (node_children n1 ! i) = node_count (node_children n ! i)" by simp
  with node_count_child [OF i] show ?thesis by simp
qed

section \<open>One pass of the search loop\<close>

text \<open>
  Selection: \<^verbatim>\<open>while (!node->has_untried_moves() && node->has_children())\<close> moves
  \<^verbatim>\<open>node\<close> to \<open>get_UCT_child\<close> and applies the move of that child to the scratch
  board \<open>b\<close>.  The result is the tree as the score writes leave it, where \<^verbatim>\<open>node\<close>
  points when the loop ends, and the board.
\<close>

function select ::
  "('b, 'g, 'd) world \<Rightarrow> ('g, 'd) node \<Rightarrow> 'b \<Rightarrow> fault + (('g, 'd) node \<times> nat list \<times> 'b)" where
  "select W n b =
     (if \<not> has_untried_moves n \<and> has_children n then
        (case get_UCT_child W n of
           Inl f \<Rightarrow> Inl f
         | Inr (n1, i) \<Rightarrow>
             (case get_move (node_children n1 ! i) of
                (bw, pos) \<Rightarrow>
                  (case select W (node_children n1 ! i) (snd (apply_place W (colour bw) pos b)) of
                     Inl f \<Rightarrow> Inl f
                   | Inr (child, p, b') \<Rightarrow>
                       Inr (set_children ((node_children n1)[i := child]) n1, i # p, b'))))
      else Inr (n, [], b))"
  by pat_completeness auto
termination
  by (relation "measure (\<lambda>(W, n, b). node_count n)") (auto dest: get_UCT_child_smaller)

declare select.simps [simp del]

text \<open>
  Expansion: if \<^verbatim>\<open>node\<close> has an untried move, one is popped (from the engine of
  that node), applied to the board, and \<open>add_child\<close> is handed the engine \<open>e\<close> of
  the player; \<^verbatim>\<open>node\<close> moves to the new child.
\<close>

definition expansion ::
  "('b, 'g, 'd) world \<Rightarrow> 'g \<Rightarrow> ('g, 'd) node \<Rightarrow> nat list \<Rightarrow> 'b \<Rightarrow> fault + (('g, 'd) node \<times> nat list \<times> 'b)" where
  "expansion W e rt p b =
     (if has_untried_moves (node_at rt p) then
        (case pop_untried_move W (node_at rt p) of
           Inl f \<Rightarrow> Inl f
         | Inr ((bw, pos), node1) \<Rightarrow>
             (let b1 = snd (apply_place W (colour bw) pos b);
                  (node2, i) = add_child W e b1 bw pos node1
              in Inr (modify_at (\<lambda>_. node2) p rt, p @ [i], b1)))
      else Inr (rt, p, b))"

text \<open>
  Simulation: \<^verbatim>\<open>while (true)\<close> lists the legal positions of the player \<open>bw\<close> to
  act, leaves the loop when there is none, and otherwise draws one from the
  engine of the player, applies it and passes the turn.  The loop has no bound of
  its own, so not leaving it is the value \<open>None\<close>.  \<open>plies\<close> counts the moves
  played; the source keeps no such counter, it is there to state how long the loop
  runs.  The result is the engine, the player found without a move, and the count.
\<close>

partial_function (option) rollout ::
  "('b, 'g, 'd) world \<Rightarrow> 'g \<Rightarrow> 'b \<Rightarrow> nat \<Rightarrow> nat \<Rightarrow> (fault + ('g \<times> nat \<times> nat)) option" where
  "rollout W e b bw plies =
     (let moves = legal_positions W b bw in
      if moves = [] then Some (Inr (e, bw, plies))
      else (case uniform_int W (length moves - 1) e of
              (k, e') \<Rightarrow>
                if k < length moves
                then rollout W e' (snd (apply_place W (colour bw) (moves ! k) b))
                       (one_minus bw) (Suc plies)
                else Some (Inl Past_the_end)))"

text \<open>
  Backpropagation: \<^verbatim>\<open>while (node != nullptr)\<close> updates the node and moves to its
  parent.
\<close>

function backpropagate :: "nat \<Rightarrow> ('g, 'd) node \<Rightarrow> nat list \<Rightarrow> ('g, 'd) node" where
  "backpropagate winner rt p =
     (let rt' = modify_at (\<lambda>node. update (winner = node_bw node) node) p rt
      in if p = [] then rt' else backpropagate winner rt' (butlast p))"
  by pat_completeness auto
termination
  by (relation "measure (\<lambda>(winner, rt, p). length p)") auto

declare backpropagate.simps [simp del]

text \<open>
  The loop body.  Every pass starts from a fresh copy of the input \<open>state\<close> and
  from the root.  Beside the tree and the engine of the player as the pass leaves
  them, the result records two locals of the body: where \<^verbatim>\<open>node\<close> pointed when
  the backpropagation started, and \<^verbatim>\<open>winner\<close>.
\<close>

record ('g, 'd) pass =
  pass_root :: "('g, 'd) node"
  pass_engine :: 'g
  pass_node :: "nat list"
  pass_winner :: nat
  pass_plies :: nat

definition iteration ::
  "('b, 'g, 'd) world \<Rightarrow> 'b \<Rightarrow> ('g, 'd) node \<Rightarrow> 'g \<Rightarrow> (fault + ('g, 'd) pass) option" where
  "iteration W state rt e =
     (case select W rt state of
        Inl f \<Rightarrow> Some (Inl f)
      | Inr (rt1, p1, b1) \<Rightarrow>
          (case expansion W e rt1 p1 b1 of
             Inl f \<Rightarrow> Some (Inl f)
           | Inr (rt2, p2, b2) \<Rightarrow>
               (case rollout W e b2 (one_minus (node_bw (node_at rt2 p2))) 0 of
                  None \<Rightarrow> None
                | Some (Inl f) \<Rightarrow> Some (Inl f)
                | Some (Inr (e', bw, plies)) \<Rightarrow>
                    Some (Inr \<lparr> pass_root = backpropagate (one_minus bw) rt2 p2,
                                pass_engine = e', pass_node = p2,
                                pass_winner = one_minus bw, pass_plies = plies \<rparr>))))"

section \<open>The player\<close>

text \<open>
  The members of \<^verbatim>\<open>MCTS_player\<close> that the search reads.  \<^verbatim>\<open>cycles\<close> and
  \<^verbatim>\<open>itr\<close> are \<^verbatim>\<open>int\<close>, 32 bits wide.
\<close>

record ('g, 'd) MCTS_player =
  engine :: 'g
  space_size :: nat
  who :: nat
  cycles :: int
  exploration_constant :: 'd

definition INT_MAX :: int where
  "INT_MAX = 2147483647"

text \<open>
  The \<^verbatim>\<open>do ... while (dt < threshold_time && itr<=cycles)\<close> loop, entered with
  \<open>itr\<close> passes done.  After the body \<^verbatim>\<open>dt\<close> is read, then \<^verbatim>\<open>itr++\<close>, then the
  condition.  \<^verbatim>\<open>threshold_time\<close> is 1.  The result is the tree, the engine and
  the final \<^verbatim>\<open>itr\<close>, which is the number of passes made.
\<close>

function search ::
  "('b, 'g, 'd) world \<Rightarrow> int \<Rightarrow> 'b \<Rightarrow> ('g, 'd) node \<Rightarrow> 'g \<Rightarrow> nat \<Rightarrow> (fault + (('g, 'd) node \<times> 'g \<times> nat)) option" where
  "search W cyc state rt e itr =
     (case iteration W state rt e of
        None \<Rightarrow> None
      | Some (Inl f) \<Rightarrow> Some (Inl f)
      | Some (Inr r) \<Rightarrow>
          (if INT_MAX \<le> int itr then Some (Inl Signed_overflow)
           else if clock W (Suc itr) < 1 \<and> int (Suc itr) \<le> cyc
                then search W cyc state (pass_root r) (pass_engine r) (Suc itr)
                else Some (Inr (pass_root r, pass_engine r, Suc itr))))"
  by pat_completeness auto
termination
  by (relation "measure (\<lambda>(W, cyc, state, rt, e, itr). nat INT_MAX - itr)")
     (auto simp: INT_MAX_def)

declare search.simps [simp del]

text \<open>
  \<^verbatim>\<open>(float) visits\<close>: the \<^verbatim>\<open>size_t\<close> rounded to the nearest number with a 24 bit
  significand, ties to even.  Every such number from \<open>2 ^ 24\<close> on is an integer.
\<close>

fun bit_length :: "nat \<Rightarrow> nat" where
  "bit_length n = (if n = 0 then 0 else Suc (bit_length (n div 2)))"

definition to_float :: "nat \<Rightarrow> nat" where
  "to_float n =
     (if n < 2 ^ 24 then n
      else let e = bit_length n - 24; q = n div 2 ^ e; r = n mod 2 ^ e; h = 2 ^ (e - 1)
           in if h < r \<or> (r = h \<and> odd q) then (q + 1) * 2 ^ e else q * 2 ^ e)"

text \<open>
  \<^verbatim>\<open>std::map<size_t, float>::emplace\<close>: the entries are kept in increasing order
  of the key, and a key that is present keeps its entry.
\<close>

fun emplace :: "nat \<times> nat \<Rightarrow> (nat \<times> nat) list \<Rightarrow> (nat \<times> nat) list" where
  "emplace (k, v) [] = [(k, v)]"
| "emplace (k, v) ((k', v') # m) =
     (if k < k' then (k, v) # (k', v') # m
      else if k = k' then (k', v') # m
      else (k', v') # emplace (k, v) m)"

text \<open>
  The end of \<^verbatim>\<open>take_action\<close>: no action when the root has no child; otherwise
  \<^verbatim>\<open>move_ratio\<close> maps the position of each child to its visit count as a
  \<^verbatim>\<open>float\<close>, and the key of \<^verbatim>\<open>std::max_element\<close> over the map is played.
\<close>

definition best_action :: "nat \<Rightarrow> ('g, 'd) node \<Rightarrow> action" where
  "best_action w rt =
     (let children = node_children rt in
      if children = [] then Action_none
      else let move_ratio =
                 foldl (\<lambda>m child. emplace (node_pos child, to_float (node_visits child)) m)
                   [] children;
               best_move =
                 fst (move_ratio ! max_element (\<lambda>p1 p2. snd p1 < snd p2) move_ratio)
           in Action_place best_move (colour w))"

text \<open>
  \<^verbatim>\<open>take_action\<close>.  The root is built from the engine of the player, for the mover
  \<^verbatim>\<open>1-who\<close> and with \<^verbatim>\<open>space_size\<close> as its position.  The engine is a member, so
  the player is part of the result.
\<close>

definition take_action ::
  "('b, 'g, 'd) world \<Rightarrow> ('g, 'd) MCTS_player \<Rightarrow> 'b \<Rightarrow> (fault + (action \<times> ('g, 'd) MCTS_player)) option" where
  "take_action W P state =
     (case search W (cycles P) state
             (new_node W (engine P) state (one_minus (who P)) (space_size P)) (engine P) 0 of
        None \<Rightarrow> None
      | Some (Inl f) \<Rightarrow> Some (Inl f)
      | Some (Inr (rt, e, itr)) \<Rightarrow>
          Some (Inr (best_action (who P) rt, P\<lparr>engine := e\<rparr>)))"

text \<open>
  The constructor, from the table \<^verbatim>\<open>meta\<close> that the constructor of \<^verbatim>\<open>agent\<close>
  has filled and the engine that the constructor of \<^verbatim>\<open>random_agent\<close> has seeded.
  \<^verbatim>\<open>std::stoi\<close> and \<^verbatim>\<open>std::stod\<close> are parameters: \<open>None\<close> where they throw.
  \<^verbatim>\<open>property\<close> is \<^verbatim>\<open>meta.at\<close>, which throws \<^verbatim>\<open>std::out_of_range\<close> on a
  missing key; inside the two \<^verbatim>\<open>try\<close> blocks every \<^verbatim>\<open>std::exception\<close> is caught
  and the default member initialiser (1000, 0.25) stays.
\<close>

datatype ctor_error = Out_of_range | Invalid_name | Invalid_role

definition MCTS_player_ctor ::
  "('b, 'g, 'd) world \<Rightarrow> (string \<Rightarrow> int option) \<Rightarrow> (string \<Rightarrow> 'd option) \<Rightarrow> nat \<Rightarrow> 'g
     \<Rightarrow> (string \<rightharpoonup> string) \<Rightarrow> ctor_error + ('g, 'd) MCTS_player" where
  "MCTS_player_ctor W stoi stod sz e meta =
     (case meta ''name'' of
        None \<Rightarrow> Inl Out_of_range
      | Some name \<Rightarrow>
          if \<exists>c \<in> set name. c \<in> set ''[]():; '' then Inl Invalid_name
          else
            let cyc = (case meta ''T'' of
                         None \<Rightarrow> 1000
                       | Some t \<Rightarrow> (case stoi t of None \<Rightarrow> 1000 | Some v \<Rightarrow> v));
                ec = (case meta ''exp'' of
                        None \<Rightarrow> d_quarter W
                      | Some x \<Rightarrow> (case stod x of None \<Rightarrow> d_quarter W | Some v \<Rightarrow> v))
            in (case meta ''role'' of
                  None \<Rightarrow> Inl Out_of_range
                | Some role \<Rightarrow>
                    if role = ''black''
                    then Inr \<lparr> engine = e, space_size = sz, who = 1,
                               cycles = cyc, exploration_constant = ec \<rparr>
                    else if role = ''white''
                    then Inr \<lparr> engine = e, space_size = sz, who = 0,
                               cycles = cyc, exploration_constant = ec \<rparr>
                    else Inl Invalid_role))"

section \<open>Notions used to state the properties\<close>

text \<open>
  \<open>forget_scores\<close> drops \<^verbatim>\<open>uct_score_\<close> in a whole tree: two trees that agree
  after it differ in nothing but the scores stored by \<open>get_UCT_child\<close>.
\<close>

fun forget_scores :: "('g, 'd) node \<Rightarrow> ('g, 'd) node" where
  "forget_scores (Node e cs ms bw pos C v w s) = Node e (map forget_scores cs) ms bw pos C v w None"

text \<open>
  The positions a node has a child for, in the order of the children, followed by
  the positions it has not tried.
\<close>

definition node_positions :: "('g, 'd) node \<Rightarrow> nat list" where
  "node_positions n = map node_pos (node_children n) @ node_moves n"

text \<open>
  The contract of \<^verbatim>\<open>std::uniform_int_distribution\<close>: a draw on \<open>(0, hi)\<close> is at
  most \<open>hi\<close>.
\<close>

definition draws_in_range :: "('b, 'g, 'd) world \<Rightarrow> bool" where
  "draws_in_range W = (\<forall>hi e. fst (uniform_int W hi e) \<le> hi)"

text \<open>
  The contract of \<^verbatim>\<open><\<close> on \<^verbatim>\<open>double\<close>: no value is below itself, and below is
  transitive.  A NaN is below nothing and nothing is below it, so both hold with
  NaN among the values; that any two values are comparable does not.
\<close>

definition less_is_strict :: "('b, 'g, 'd) world \<Rightarrow> bool" where
  "less_is_strict W =
     ((\<forall>x. \<not> d_less W x x) \<and> (\<forall>x y z. d_less W x y \<and> d_less W y z \<longrightarrow> d_less W x z))"

text \<open>
  Modelled from the spec: \<^verbatim>\<open>board.h\<close> is not among the sources.  The spec says
  of a rollout that each ply permanently removes one legal destination: a board
  has a set of empty cells among the \<open>size_xy\<close> positions, a placement on one
  of these positions is legal only on an empty cell, and a legal placement takes
  that cell and no other out of the set, for good.
\<close>

definition board_fills :: "('b, 'g, 'd) world \<Rightarrow> ('b \<Rightarrow> nat set) \<Rightarrow> bool" where
  "board_fills W empties =
     (\<forall>who pos b. empties b \<subseteq> {..<size_xy W} \<and>
        (pos < size_xy W \<and> fst (apply_place W who pos b) \<longrightarrow>
           pos \<in> empties b \<and> empties (snd (apply_place W who pos b)) = empties b - {pos}))"

text \<open>
  The trees that a call of \<^verbatim>\<open>take_action\<close> on \<open>state\<close> can hold, at any point:
  the root as constructed, and what one call of \<open>get_UCT_child\<close>, the selection
  loop, the expansion step or one call of \<open>update\<close> makes of such a tree.  The
  rollout does not touch the tree.
\<close>

inductive during_search :: "('b, 'g, 'd) world \<Rightarrow> 'b \<Rightarrow> ('g, 'd) node \<Rightarrow> bool"
  for W :: "('b, 'g, 'd) world" and state :: 'b where
  created: "during_search W state (new_node W e state bw pos)"
| scored: "during_search W state t \<Longrightarrow> valid_path t p \<Longrightarrow>
     get_UCT_child W (node_at t p) = Inr (n', i) \<Longrightarrow>
     during_search W state (modify_at (\<lambda>_. n') p t)"
| selected: "during_search W state t \<Longrightarrow> select W t state = Inr (t', p, b) \<Longrightarrow>
     during_search W state t'"
| expanded: "during_search W state t \<Longrightarrow> valid_path t p \<Longrightarrow>
     expansion W e t p b = Inr (t', p', b') \<Longrightarrow> during_search W state t'"
| updated: "during_search W state t \<Longrightarrow> valid_path t p \<Longrightarrow>
     during_search W state (modify_at (\<lambda>node. update (winner = node_bw node) node) p t)"

text \<open>The trees at the start of a pass through the loop body.\<close>

inductive pass_start :: "('b, 'g, 'd) world \<Rightarrow> 'b \<Rightarrow> ('g, 'd) node \<Rightarrow> bool"
  for W :: "('b, 'g, 'd) world" and state :: 'b where
  first_pass: "pass_start W state (new_node W e state bw pos)"
| next_pass: "pass_start W state t \<Longrightarrow> iteration W state t e = Some (Inr r) \<Longrightarrow>
     pass_start W state (pass_root r)"

text \<open>
  A small world to run the search on: \<open>n\<close> cells, a stone of either colour may
  be put on any empty cell, the engine is a counter whose draw on \<open>(0, hi)\<close> is
  its value modulo \<open>hi + 1\<close>, the clock never advances, and the arithmetic is
  exact: the doubles are the real numbers.
\<close>

definition fill_world :: "nat \<Rightarrow> (bool list, nat, real) world" where
  "fill_world n =
     \<lparr> size_xy = n,
       apply_place = (\<lambda>who pos b.
          if pos < length b \<and> \<not> b ! pos then (True, b[pos := True]) else (False, b)),
       uniform_int = (\<lambda>hi e. (e mod (hi + 1), Suc e)),
       clock = (\<lambda>k. 0),
       d_of_size = real, d_div = (/), d_add = (+), d_mul = (\<lambda>x y. x * y), d_log = ln, d_sqrt = sqrt,
       d_less = (<), d_quarter = 1 / 4 \<rparr>"

text \<open>
  The small world on a machine that makes \<open>rate\<close> passes in a second: the clock
  reads \<open>k / rate\<close> at the end of the \<open>k\<close>-th pass.
\<close>

definition timed_world :: "nat \<Rightarrow> nat \<Rightarrow> (bool list, nat, real) world" where
  "timed_world n rate = (fill_world n) \<lparr> clock := (\<lambda>k. real k / real rate) \<rparr>"




text \<open>
  The search as the spec words it for the random source: one stream, owned by the
  driver, that every draw advances.  \<open>pop_untried_move_shared\<close> draws from the
  engine it is handed and returns it advanced, the expansion passes it on, and the
  rollout continues from there; everything else is as in the code.  These
  definitions follow the spec, not the source; they are what C5 compares the code
  with.
\<close>

definition pop_untried_move_shared ::
  "('b, 'g, 'd) world \<Rightarrow> 'g \<Rightarrow> ('g, 'd) node \<Rightarrow> fault + ((nat \<times> nat) \<times> ('g, 'd) node \<times> 'g)" where
  "pop_untried_move_shared W e n =
     (let ms = node_moves n;
          (k, e') = uniform_int W (length ms - 1) e
      in if k < length ms
         then Inr ((one_minus (node_bw n), ms ! k), set_moves (take k ms @ drop (Suc k) ms) n, e')
         else Inl Past_the_end)"

definition expansion_shared ::
  "('b, 'g, 'd) world \<Rightarrow> 'g \<Rightarrow> ('g, 'd) node \<Rightarrow> nat list \<Rightarrow> 'b
     \<Rightarrow> fault + (('g, 'd) node \<times> nat list \<times> 'b \<times> 'g)" where
  "expansion_shared W e rt p b =
     (if has_untried_moves (node_at rt p) then
        (case pop_untried_move_shared W e (node_at rt p) of
           Inl f \<Rightarrow> Inl f
         | Inr ((bw, pos), node1, e1) \<Rightarrow>
             (let b1 = snd (apply_place W (colour bw) pos b);
                  (node2, i) = add_child W e1 b1 bw pos node1
              in Inr (modify_at (\<lambda>_. node2) p rt, p @ [i], b1, e1)))
      else Inr (rt, p, b, e))"

definition iteration_shared ::
  "('b, 'g, 'd) world \<Rightarrow> 'b \<Rightarrow> ('g, 'd) node \<Rightarrow> 'g \<Rightarrow> (fault + ('g, 'd) pass) option" where
  "iteration_shared W state rt e =
     (case select W rt state of
        Inl f \<Rightarrow> Some (Inl f)
      | Inr (rt1, p1, b1) \<Rightarrow>
          (case expansion_shared W e rt1 p1 b1 of
             Inl f \<Rightarrow> Some (Inl f)
           | Inr (rt2, p2, b2, e1) \<Rightarrow>
               (case rollout W e1 b2 (one_minus (node_bw (node_at rt2 p2))) 0 of
                  None \<Rightarrow> None
                | Some (Inl f) \<Rightarrow> Some (Inl f)
                | Some (Inr (e2, bw, plies)) \<Rightarrow>
                    Some (Inr \<lparr> pass_root = backpropagate (one_minus bw) rt2 p2,
                                pass_engine = e2, pass_node = p2,
                                pass_winner = one_minus bw, pass_plies = plies \<rparr>))))"

function search_shared ::
  "('b, 'g, 'd) world \<Rightarrow> int \<Rightarrow> 'b \<Rightarrow> ('g, 'd) node \<Rightarrow> 'g \<Rightarrow> nat \<Rightarrow> (fault + (('g, 'd) node \<times> 'g \<times> nat)) option" where
  "search_shared W cyc state rt e itr =
     (case iteration_shared W state rt e of
        None \<Rightarrow> None
      | Some (Inl f) \<Rightarrow> Some (Inl f)
      | Some (Inr r) \<Rightarrow>
          (if INT_MAX \<le> int itr then Some (Inl Signed_overflow)
           else if clock W (Suc itr) < 1 \<and> int (Suc itr) \<le> cyc
                then search_shared W cyc state (pass_root r) (pass_engine r) (Suc itr)
                else Some (Inr (pass_root r, pass_engine r, Suc itr))))"
  by pat_completeness auto
termination
  by (relation "measure (\<lambda>(W, cyc, state, rt, e, itr). nat INT_MAX - itr)")
     (auto simp: INT_MAX_def)

declare search_shared.simps [simp del]

definition take_action_shared ::
  "('b, 'g, 'd) world \<Rightarrow> ('g, 'd) MCTS_player \<Rightarrow> 'b \<Rightarrow> (fault + (action \<times> ('g, 'd) MCTS_player)) option" where
  "take_action_shared W P state =
     (case search_shared W (cycles P) state
             (new_node W (engine P) state (one_minus (who P)) (space_size P)) (engine P) 0 of
        None \<Rightarrow> None
      | Some (Inl f) \<Rightarrow> Some (Inl f)
      | Some (Inr (rt, e, itr)) \<Rightarrow>
          Some (Inr (best_action (who P) rt, P\<lparr>engine := e\<rparr>)))"

text \<open>
  The small world with another engine: the draw on \<open>(0, hi)\<close> is half the
  counter, modulo \<open>hi + 1\<close>.
\<close>

definition skip_world :: "nat \<Rightarrow> (bool list, nat, real) world" where
  "skip_world n = (fill_world n) \<lparr> uniform_int := (\<lambda>hi e. ((e div 2) mod (hi + 1), Suc e)) \<rparr>"

section \<open>Properties of the node operations\<close>



lemma max_scan_bound: "li < i \<Longrightarrow> max_scan cmp largest li i xs < i + length xs"
proof (induction xs arbitrary: largest li i)
  case Nil
  then show ?case by simp
next
  case (Cons x xs)
  have "max_scan cmp x i (Suc i) xs < Suc i + length xs" by (rule Cons.IH) simp
  moreover have "max_scan cmp largest li (Suc i) xs < Suc i + length xs"
    using Cons.prems by (intro Cons.IH) simp
  ultimately show ?case by simp
qed

lemma max_element_bound: "xs \<noteq> [] \<Longrightarrow> max_element cmp xs < length xs"
  using max_scan_bound [of 0 1 cmp] by (cases xs) (auto simp: max_element_def)

lemma max_scan_maximal:
  assumes irr: "\<And>x. \<not> lt x x" and tr: "\<And>x y z. lt x y \<Longrightarrow> lt y z \<Longrightarrow> lt x z"
    and "li < length pre" and "pre ! li = largest"
    and "\<forall>j < length pre. \<not> lt (f largest) (f (pre ! j))"
    and "\<forall>j < li. f (pre ! j) \<noteq> f largest"
  shows "max_scan (\<lambda>a b. lt (f a) (f b)) largest li (length pre) xs < length (pre @ xs)
    \<and> (\<forall>j < length (pre @ xs).
          \<not> lt (f ((pre @ xs) ! max_scan (\<lambda>a b. lt (f a) (f b)) largest li (length pre) xs))
               (f ((pre @ xs) ! j)))
    \<and> (\<forall>j < max_scan (\<lambda>a b. lt (f a) (f b)) largest li (length pre) xs.
          f ((pre @ xs) ! j) \<noteq> f ((pre @ xs) ! max_scan (\<lambda>a b. lt (f a) (f b)) largest li (length pre) xs))"
  using assms(3-)
proof (induction xs arbitrary: pre largest li)
  case Nil
  then show ?case by simp
next
  case (Cons x xs)
  let ?pre = "pre @ [x]"
  show ?case
  proof (cases "lt (f largest) (f x)")
    case True
    have a: "length pre < length ?pre" by simp
    have b: "?pre ! length pre = x" by simp
    have c: "\<forall>j < length ?pre. \<not> lt (f x) (f (?pre ! j))"
    proof (intro allI impI)
      fix j assume "j < length ?pre"
      then consider "j < length pre" | "j = length pre" by fastforce
      then show "\<not> lt (f x) (f (?pre ! j))"
      proof cases
        case 1
        with Cons.prems(3) have "\<not> lt (f largest) (f (pre ! j))" by simp
        with tr [OF True] 1 show ?thesis by (auto simp: nth_append)
      next
        case 2
        with irr show ?thesis by simp
      qed
    qed
    have d: "\<forall>j < length pre. f (?pre ! j) \<noteq> f x"
    proof (intro allI impI)
      fix j assume j: "j < length pre"
      with Cons.prems(3) have "\<not> lt (f largest) (f (pre ! j))" by simp
      with True j show "f (?pre ! j) \<noteq> f x" by (auto simp: nth_append)
    qed
    from Cons.IH [OF a b c d] True show ?thesis by simp
  next
    case False
    have a: "li < length ?pre" using Cons.prems(1) by simp
    have b: "?pre ! li = largest" using Cons.prems(1,2) by (simp add: nth_append)
    have c: "\<forall>j < length ?pre. \<not> lt (f largest) (f (?pre ! j))"
      using Cons.prems(3) False by (auto simp: nth_append less_Suc_eq)
    have d: "\<forall>j < li. f (?pre ! j) \<noteq> f largest"
      using Cons.prems(1,4) by (auto simp: nth_append)
    from Cons.IH [OF a b c d] False show ?thesis by simp
  qed
qed

lemma max_element_maximal:
  assumes irr': "\<forall>x. \<not> lt x x" and tr': "\<forall>x y z. lt x y \<longrightarrow> lt y z \<longrightarrow> lt x z"
    and "xs \<noteq> []"
  shows "max_element (\<lambda>a b. lt (f a) (f b)) xs < length xs
    \<and> (\<forall>j < length xs. \<not> lt (f (xs ! max_element (\<lambda>a b. lt (f a) (f b)) xs)) (f (xs ! j)))
    \<and> (\<forall>j < max_element (\<lambda>a b. lt (f a) (f b)) xs.
          f (xs ! j) \<noteq> f (xs ! max_element (\<lambda>a b. lt (f a) (f b)) xs))"
proof -
  from irr' have irr: "\<And>x. \<not> lt x x" by blast
  from tr' have tr: "\<And>x y z. lt x y \<Longrightarrow> lt y z \<Longrightarrow> lt x z" by blast
  from assms(3) obtain x r where xs: "xs = x # r" by (cases xs) auto
  have "max_scan (\<lambda>a b. lt (f a) (f b)) x 0 (length [x]) r < length ([x] @ r)
    \<and> (\<forall>j < length ([x] @ r).
          \<not> lt (f (([x] @ r) ! max_scan (\<lambda>a b. lt (f a) (f b)) x 0 (length [x]) r))
               (f (([x] @ r) ! j)))
    \<and> (\<forall>j < max_scan (\<lambda>a b. lt (f a) (f b)) x 0 (length [x]) r.
          f (([x] @ r) ! j) \<noteq> f (([x] @ r) ! max_scan (\<lambda>a b. lt (f a) (f b)) x 0 (length [x]) r))"
    by (rule max_scan_maximal [OF irr tr]) (simp_all add: irr)
  then show ?thesis by (simp add: xs max_element_def)
qed

lemma max_scan_first:
  assumes tr: "\<And>x y z. lt x y \<Longrightarrow> lt y z \<Longrightarrow> lt x z" and irr: "\<And>x. \<not> lt x x"
  shows "(\<And>a b c. a \<in> set (pre @ xs) \<Longrightarrow> b \<in> set (pre @ xs) \<Longrightarrow> c \<in> set (pre @ xs) \<Longrightarrow>
            lt (f a) (f c) \<Longrightarrow> lt (f a) (f b) \<or> lt (f b) (f c))
    \<Longrightarrow> li < length pre \<Longrightarrow> pre ! li = largest
    \<Longrightarrow> \<forall>j < length pre. \<not> lt (f largest) (f (pre ! j))
    \<Longrightarrow> \<forall>j < li. lt (f (pre ! j)) (f largest)
    \<Longrightarrow> \<forall>j < max_scan (\<lambda>a b. lt (f a) (f b)) largest li (length pre) xs.
          lt (f ((pre @ xs) ! j))
             (f ((pre @ xs) ! max_scan (\<lambda>a b. lt (f a) (f b)) largest li (length pre) xs))"
proof (induction xs arbitrary: pre largest li)
  case Nil
  then show ?case by simp
next
  case (Cons x xs)
  let ?pre = "pre @ [x]"
  have nt: "lt (f a) (f b) \<or> lt (f b) (f c)"
    if "a \<in> set (?pre @ xs)" "b \<in> set (?pre @ xs)" "c \<in> set (?pre @ xs)" "lt (f a) (f c)"
    for a b c
    using Cons.prems(1) [of a b c] that by simp
  have lg: "largest \<in> set (pre @ x # xs)" using Cons.prems(2,3) by (auto simp: in_set_conv_nth)
  show ?case
  proof (cases "lt (f largest) (f x)")
    case True
    have a: "length pre < length ?pre" by simp
    have b: "?pre ! length pre = x" by simp
    have c: "\<forall>j < length ?pre. \<not> lt (f x) (f (?pre ! j))"
    proof (intro allI impI)
      fix j assume "j < length ?pre"
      then consider "j < length pre" | "j = length pre" by fastforce
      then show "\<not> lt (f x) (f (?pre ! j))"
      proof cases
        case 1
        with Cons.prems(4) have "\<not> lt (f largest) (f (pre ! j))" by simp
        with tr [OF True] 1 show ?thesis by (auto simp: nth_append)
      next
        case 2
        with irr show ?thesis by simp
      qed
    qed
    have d: "\<forall>j < length pre. lt (f (?pre ! j)) (f x)"
    proof (intro allI impI)
      fix j assume j: "j < length pre"
      with Cons.prems(4) have n: "\<not> lt (f largest) (f (pre ! j))" by simp
      from j have "pre ! j \<in> set (pre @ x # xs)" by simp
      from Cons.prems(1) [OF lg this _ True] n have "lt (f (pre ! j)) (f x)" by simp
      with j show "lt (f (?pre ! j)) (f x)" by (simp add: nth_append)
    qed
    from Cons.IH [of ?pre "length pre" x, OF nt a b c d] True show ?thesis by simp
  next
    case False
    have a: "li < length ?pre" using Cons.prems(2) by simp
    have b: "?pre ! li = largest" using Cons.prems(2,3) by (simp add: nth_append)
    have c: "\<forall>j < length ?pre. \<not> lt (f largest) (f (?pre ! j))"
      using Cons.prems(4) False by (auto simp: nth_append less_Suc_eq)
    have d: "\<forall>j < li. lt (f (?pre ! j)) (f largest)"
      using Cons.prems(2,5) by (auto simp: nth_append)
    from Cons.IH [of ?pre li largest, OF nt a b c d] False show ?thesis by simp
  qed
qed

lemma max_element_first:
  assumes tr': "\<forall>x y z. lt x y \<longrightarrow> lt y z \<longrightarrow> lt x z" and irr': "\<forall>x. \<not> lt x x"
    and nt: "\<forall>a \<in> set xs. \<forall>b \<in> set xs. \<forall>c \<in> set xs.
        lt (f a) (f c) \<longrightarrow> lt (f a) (f b) \<or> lt (f b) (f c)"
  shows "\<forall>j < max_element (\<lambda>a b. lt (f a) (f b)) xs.
    lt (f (xs ! j)) (f (xs ! max_element (\<lambda>a b. lt (f a) (f b)) xs))"
proof (cases xs)
  case Nil
  then show ?thesis by (simp add: max_element_def)
next
  case (Cons x r)
  from irr' have irr: "\<And>x. \<not> lt x x" by blast
  from tr' have tr: "\<And>x y z. lt x y \<Longrightarrow> lt y z \<Longrightarrow> lt x z" by blast
  have "\<forall>j < max_scan (\<lambda>a b. lt (f a) (f b)) x 0 (length [x]) r.
          lt (f (([x] @ r) ! j))
             (f (([x] @ r) ! max_scan (\<lambda>a b. lt (f a) (f b)) x 0 (length [x]) r))"
  proof (rule max_scan_first [OF tr irr])
    show "lt (f a) (f b) \<or> lt (f b) (f c)"
      if "a \<in> set ([x] @ r)" "b \<in> set ([x] @ r)" "c \<in> set ([x] @ r)" "lt (f a) (f c)" for a b c
      using nt that Cons by simp blast
  qed (simp_all add: irr)
  then show ?thesis by (simp add: Cons max_element_def)
qed

lemma get_UCT_child_maximal:
  assumes ne: "node_children n \<noteq> []" and st: "less_is_strict W"
  shows "\<exists>n' i. get_UCT_child W n = Inr (n', i) \<and> i < length (node_children n)
    \<and> n' = set_children (map (\<lambda>c. set_uct_score (Some (uct W (node_visits n) (node_exploration_constant n) c)) c)
                            (node_children n)) n
    \<and> (\<forall>j < length (node_children n).
          \<not> d_less W (uct W (node_visits n) (node_exploration_constant n) (node_children n ! i))
                       (uct W (node_visits n) (node_exploration_constant n) (node_children n ! j)))
    \<and> (\<forall>j < i.
          uct W (node_visits n) (node_exploration_constant n) (node_children n ! j)
          \<noteq> uct W (node_visits n) (node_exploration_constant n) (node_children n ! i))
    \<and> ((\<forall>c1 \<in> set (node_children n). \<forall>c2 \<in> set (node_children n). \<forall>c3 \<in> set (node_children n).
           d_less W (uct W (node_visits n) (node_exploration_constant n) c1)
                    (uct W (node_visits n) (node_exploration_constant n) c3) \<longrightarrow>
           d_less W (uct W (node_visits n) (node_exploration_constant n) c1)
                    (uct W (node_visits n) (node_exploration_constant n) c2)
           \<or> d_less W (uct W (node_visits n) (node_exploration_constant n) c2)
                      (uct W (node_visits n) (node_exploration_constant n) c3))
        \<longrightarrow> (\<forall>j < i.
               d_less W (uct W (node_visits n) (node_exploration_constant n) (node_children n ! j))
                        (uct W (node_visits n) (node_exploration_constant n) (node_children n ! i))))"
proof -
  let ?sc = "\<lambda>c. uct W (node_visits n) (node_exploration_constant n) c"
  let ?cs = "map (\<lambda>c. set_uct_score (Some (?sc c)) c) (node_children n)"
  let ?f = "\<lambda>c. the (node_uct_score c)"
  let ?i = "max_element (\<lambda>lhs rhs. d_less W (?f lhs) (?f rhs)) ?cs"
  from st have irr: "\<forall>x. \<not> d_less W x x"
    and tr: "\<forall>x y z. d_less W x y \<longrightarrow> d_less W y z \<longrightarrow> d_less W x z"
    unfolding less_is_strict_def by blast+
  have "?cs \<noteq> []" using ne by simp
  from max_element_maximal [where lt = "d_less W" and f = ?f, OF irr tr this]
  have i: "?i < length ?cs"
    and mx: "\<forall>j < length ?cs. \<not> d_less W (?f (?cs ! ?i)) (?f (?cs ! j))"
    and fs: "\<forall>j < ?i. ?f (?cs ! j) \<noteq> ?f (?cs ! ?i)"
    by blast+
  have g: "get_UCT_child W n = Inr (set_children ?cs n, ?i)"
    using i by (simp add: get_UCT_child_def Let_def)
  have a: "\<forall>j < length (node_children n).
      \<not> d_less W (?sc (node_children n ! ?i)) (?sc (node_children n ! j))"
    using mx i by simp
  have b: "\<forall>j < ?i. ?sc (node_children n ! j) \<noteq> ?sc (node_children n ! ?i)"
    using fs i by simp
  have c: "\<forall>j < ?i. d_less W (?sc (node_children n ! j)) (?sc (node_children n ! ?i))"
    if nt: "\<forall>c1 \<in> set (node_children n). \<forall>c2 \<in> set (node_children n). \<forall>c3 \<in> set (node_children n).
        d_less W (?sc c1) (?sc c3) \<longrightarrow> d_less W (?sc c1) (?sc c2) \<or> d_less W (?sc c2) (?sc c3)"
  proof -
    have "\<forall>a \<in> set ?cs. \<forall>b \<in> set ?cs. \<forall>c \<in> set ?cs.
        d_less W (?f a) (?f c) \<longrightarrow> d_less W (?f a) (?f b) \<or> d_less W (?f b) (?f c)"
      using nt by auto
    from max_element_first [where lt = "d_less W" and f = ?f, OF tr irr this]
    have "\<forall>j < ?i. d_less W (?f (?cs ! j)) (?f (?cs ! ?i))" .
    with i show ?thesis by simp
  qed
  from g i a b c show ?thesis by simp
qed

lemma uct_set_uct_score [simp]: "uct W pv C (set_uct_score s c) = uct W pv C c"
  by (simp add: uct_def)

lemma set_uct_score_twice [simp]: "set_uct_score s (set_uct_score s' c) = set_uct_score s c"
  by (cases c) simp

lemma get_UCT_child_idempotent:
  assumes "get_UCT_child W n = Inr (n', i)"
  shows "get_UCT_child W n' = Inr (n', i)"
proof -
  let ?sc = "\<lambda>c. uct W (node_visits n) (node_exploration_constant n) c"
  let ?cs = "map (\<lambda>c. set_uct_score (Some (?sc c)) c) (node_children n)"
  let ?cmp = "\<lambda>lhs rhs. d_less W (the (node_uct_score lhs)) (the (node_uct_score rhs))"
  from assms have n': "n' = set_children ?cs n"
    and i: "i = max_element ?cmp ?cs"
    and lt: "i < length ?cs"
    by (auto simp: get_UCT_child_def Let_def split: if_splits)
  have same: "map (\<lambda>c. set_uct_score (Some (uct W (node_visits n') (node_exploration_constant n') c)) c)
      (node_children n') = ?cs"
    unfolding n' by (cases n) (simp add: comp_def)
  have "set_children ?cs n' = n'" unfolding n' by (cases n) simp
  with same i lt show ?thesis
    by (simp add: get_UCT_child_def Let_def)
qed

text \<open>
  Where the conversion gives two visit counts the same \<^verbatim>\<open>double\<close> (as it does
  for \<open>2 ^ 53\<close> and \<open>2 ^ 53 + 1\<close>) and the wins agree, two children have the same
  score, and the first one is returned.
\<close>

lemma get_UCT_child_rounding_tie:
  assumes "less_is_strict W" and "node_children n = [c0, c1]"
    and "d_of_size W (node_visits c0) = d_of_size W (node_visits c1)"
    and "d_of_size W (node_wins c0) = d_of_size W (node_wins c1)"
  shows "\<exists>n'. get_UCT_child W n = Inr (n', 0)"
proof -
  from assms(1) have irr: "\<not> d_less W x x" for x unfolding less_is_strict_def by blast
  from assms(3,4) have "uct W pv C c0 = uct W pv C c1" for pv C by (simp add: uct_def)
  with assms(2) irr show ?thesis
    by (simp add: get_UCT_child_def max_element_def)
qed

section \<open>Properties of the tree operations\<close>

lemma node_at_append: "valid_path t p \<Longrightarrow> node_at t (p @ q) = node_at (node_at t p) q"
  by (induction p arbitrary: t) auto

lemma valid_path_append:
  "valid_path t (p @ q) = (valid_path t p \<and> valid_path (node_at t p) q)"
  by (induction p arbitrary: t) auto

lemma valid_path_prefix: "valid_path t p \<Longrightarrow> prefix q p \<Longrightarrow> valid_path t q"
  by (auto simp: prefix_def valid_path_append)

lemma node_at_modify_at_same: "valid_path t p \<Longrightarrow> node_at (modify_at f p t) p = f (node_at t p)"
  by (induction p arbitrary: t) auto

lemma valid_path_modify_at:
  assumes "valid_path t p"
  shows "valid_path (modify_at f p t) q =
    (if prefix p q then valid_path (f (node_at t p)) (drop (length p) q) else valid_path t q)"
  using assms
proof (induction p arbitrary: t q)
  case Nil
  then show ?case by simp
next
  case (Cons i p)
  show ?case
  proof (cases q)
    case Nil
    then show ?thesis by simp
  next
    case (Cons j q')
    show ?thesis
    proof (cases "j = i")
      case True
      with Cons.prems Cons.IH [of "node_children t ! i" q'] Cons show ?thesis by auto
    next
      case False
      with Cons.prems Cons show ?thesis by auto
    qed
  qed
qed

lemma node_at_modify_at_field:
  assumes vp: "valid_path t p" and vq: "valid_path t q"
    and ch: "node_children (f (node_at t p)) = node_children (node_at t p) @ ex"
    and sc: "\<And>cs n. g (set_children cs n) = g n"
  shows "g (node_at (modify_at f p t) q) = (if q = p then g (f (node_at t p)) else g (node_at t q))"
  using vp vq ch
proof (induction p arbitrary: t q)
  case Nil
  then show ?case by (cases q) (auto simp: nth_append)
next
  case (Cons i p)
  show ?case
  proof (cases q)
    case Nil
    then show ?thesis using sc by simp
  next
    case (Cons j q')
    show ?thesis
    proof (cases "j = i")
      case True
      with Cons.prems Cons.IH [of "node_children t ! i" q'] Cons show ?thesis by auto
    next
      case False
      with Cons.prems Cons show ?thesis by auto
    qed
  qed
qed

lemma valid_path_modify_at_old:
  assumes vp: "valid_path t p" and vq: "valid_path t q"
    and ch: "node_children (f (node_at t p)) = node_children (node_at t p) @ ex"
  shows "valid_path (modify_at f p t) q"
proof (cases "prefix p q")
  case True
  then obtain r where q: "q = p @ r" by (auto simp: prefix_def)
  with vq vp have "valid_path (node_at t p) r" by (simp add: valid_path_append)
  then have "valid_path (f (node_at t p)) r" using ch
    by (cases r) (auto simp: nth_append)
  with vp True q show ?thesis by (simp add: valid_path_modify_at)
next
  case False
  with vp vq show ?thesis by (simp add: valid_path_modify_at)
qed

subsection \<open>Backpropagation\<close>

lemma valid_path_update_at:
  assumes "valid_path t p"
  shows "valid_path (modify_at ((\<lambda>node. update (winner = node_bw node) node)) p t) q = valid_path t q"
proof (cases "prefix p q")
  case True
  then obtain r where q: "q = p @ r" by (auto simp: prefix_def)
  have "valid_path (update (winner = node_bw (node_at t p)) (node_at t p)) r
      = valid_path (node_at t p) r" by (cases r) auto
  moreover have "valid_path (modify_at ((\<lambda>node. update (winner = node_bw node) node)) p t) q
      = valid_path (update (winner = node_bw (node_at t p)) (node_at t p)) r"
    using assms q by (simp add: valid_path_modify_at)
  ultimately show ?thesis using assms q by (simp add: valid_path_append)
next
  case False
  with assms show ?thesis by (simp add: valid_path_modify_at)
qed

lemma backpropagate_valid_path:
  "valid_path t p \<Longrightarrow> valid_path (backpropagate winner t p) q = valid_path t q"
proof (induction winner t p rule: backpropagate.induct)
  case (1 winner t p)
  note same = valid_path_update_at [OF 1(2), of winner]
  show ?case
  proof (cases "p = []")
    case True
    then show ?thesis using same by (simp add: backpropagate.simps [of winner t "[]"] Let_def)
  next
    case False
    have "valid_path (modify_at ((\<lambda>node. update (winner = node_bw node) node)) p t) (butlast p)"
      using same 1(2) by (auto intro: valid_path_prefix prefixeq_butlast)
    from 1(1) [OF refl False this] same False show ?thesis
      by (subst backpropagate.simps) (simp add: Let_def)
  qed
qed

lemma backpropagate_counters:
  assumes "valid_path t p" and "valid_path t q"
  shows "node_visits (node_at (backpropagate winner t p) q)
           = node_visits (node_at t q) + (if prefix q p then 1 else 0)
       \<and> node_wins (node_at (backpropagate winner t p) q)
           = node_wins (node_at t q) + (if prefix q p \<and> winner = node_bw (node_at t q) then 1 else 0)
       \<and> node_bw (node_at (backpropagate winner t p) q) = node_bw (node_at t q)"
  using assms
proof (induction winner t p rule: backpropagate.induct)
  case (1 winner t p)
  let ?t' = "modify_at ((\<lambda>node. update (winner = node_bw node) node)) p t"
  have ch: "node_children ((\<lambda>node. update (winner = node_bw node) node) (node_at t p)) = node_children (node_at t p) @ []" by simp
  have v: "node_visits (node_at ?t' q) = node_visits (node_at t q) + (if q = p then 1 else 0)"
    using node_at_modify_at_field [where f = "(\<lambda>node. update (winner = node_bw node) node)" and g = node_visits, OF 1(2) 1(3) ch] by simp
  have w: "node_wins (node_at ?t' q)
      = node_wins (node_at t q) + (if q = p \<and> winner = node_bw (node_at t q) then 1 else 0)"
    using node_at_modify_at_field [where f = "(\<lambda>node. update (winner = node_bw node) node)" and g = node_wins, OF 1(2) 1(3) ch] by simp
  have b: "node_bw (node_at ?t' q) = node_bw (node_at t q)"
    using node_at_modify_at_field [where f = "(\<lambda>node. update (winner = node_bw node) node)" and g = node_bw, OF 1(2) 1(3) ch] by simp
  show ?case
  proof (cases "p = []")
    case True
    with v w b show ?thesis by (subst (1 2 3) backpropagate.simps) (auto simp: Let_def)
  next
    case False
    have vq: "valid_path ?t' q" using valid_path_modify_at_old [where f = "(\<lambda>node. update (winner = node_bw node) node)", OF 1(2) 1(3) ch] .
    have vb: "valid_path ?t' (butlast p)"
      using valid_path_modify_at_old [where f = "(\<lambda>node. update (winner = node_bw node) node)" and q = "butlast p", OF 1(2) _ ch] 1(2)
      by (auto intro: valid_path_prefix prefixeq_butlast)
    have pre: "prefix q p = (q = p \<or> prefix q (butlast p))"
      using False prefix_snoc [of q "butlast p" "last p"] by simp
    have ne: "q = p \<Longrightarrow> \<not> prefix q (butlast p)"
      using False by (metis append_butlast_last_id not_prefix_cases prefix_order.dual_order.antisym prefix_snoc prefixeq_butlast self_append_conv snoc_eq_iff_butlast)
    from 1(1) [OF refl False vb vq] v w b pre ne False show ?thesis
      by (subst (1 2 3) backpropagate.simps) (auto simp: Let_def)
  qed
qed

subsection \<open>Selection\<close>

lemma forget_scores_sel [simp]:
  "node_children (forget_scores n) = map forget_scores (node_children n)"
  "node_visits (forget_scores n) = node_visits n"
  "node_wins (forget_scores n) = node_wins n"
  "node_bw (forget_scores n) = node_bw n"
  "node_pos (forget_scores n) = node_pos n"
  "node_moves (forget_scores n) = node_moves n"
  "node_engine (forget_scores n) = node_engine n"
  "node_exploration_constant (forget_scores n) = node_exploration_constant n"
  by (cases n; simp)+

lemma forget_scores_set_uct_score [simp]: "forget_scores (set_uct_score s n) = forget_scores n"
  by (cases n) simp

lemma forget_scores_set_children:
  "forget_scores (set_children cs n) = set_children (map forget_scores cs) (forget_scores n)"
  by (cases n) simp

lemma set_children_same: "node_children n = cs \<Longrightarrow> set_children cs n = n"
  by (cases n) simp

lemma valid_path_forget [simp]: "valid_path (forget_scores t) q = valid_path t q"
  by (induction q arbitrary: t) (simp_all cong: conj_cong)

lemma node_at_forget: "valid_path t q \<Longrightarrow> node_at (forget_scores t) q = forget_scores (node_at t q)"
  by (induction q arbitrary: t) simp_all

lemma get_UCT_child_Inr:
  assumes "get_UCT_child W n = Inr (n1, i)"
  shows "i < length (node_children n)" and "forget_scores n1 = forget_scores n"
    and "length (node_children n1) = length (node_children n)"
    and "forget_scores (node_children n1 ! i) = forget_scores (node_children n ! i)"
proof -
  from assms have i: "i < length (node_children n)"
    and n1: "n1 = set_children (map (\<lambda>child. set_uct_score
        (Some (uct W (node_visits n) (node_exploration_constant n) child)) child) (node_children n)) n"
    by (auto simp: get_UCT_child_def Let_def split: if_splits)
  show "i < length (node_children n)" by fact
  show "forget_scores n1 = forget_scores n"
    unfolding n1 by (cases n) (simp add: comp_def)
  show "length (node_children n1) = length (node_children n)" unfolding n1 by simp
  show "forget_scores (node_children n1 ! i) = forget_scores (node_children n ! i)"
    unfolding n1 using i by simp
qed

lemma get_UCT_child_total:
  assumes "node_children n \<noteq> []"
  shows "\<exists>n1 i. get_UCT_child W n = Inr (n1, i)"
  using assms max_element_bound
    [of "map (\<lambda>child. set_uct_score
        (Some (uct W (node_visits n) (node_exploration_constant n) child)) child) (node_children n)"]
  by (simp add: get_UCT_child_def Let_def)

lemma select_frame:
  "select W t b = Inr (t1, p, b1) \<Longrightarrow>
     forget_scores t1 = forget_scores t \<and> valid_path t1 p
     \<and> (has_untried_moves (node_at t1 p) \<or> \<not> has_children (node_at t1 p))"
proof (induction W t b arbitrary: t1 p b1 rule: select.induct)
  case (1 W n b)
  show ?case
  proof (cases "\<not> has_untried_moves n \<and> has_children n")
    case False
    with 1(2) show ?thesis by (subst (asm) select.simps) auto
  next
    case True
    from 1(2) True obtain n1 i where g: "get_UCT_child W n = Inr (n1, i)"
      by (subst (asm) select.simps) (auto split: sum.splits)
    obtain bw pos where m: "get_move (node_children n1 ! i) = (bw, pos)" by (cases "get_move (node_children n1 ! i)")
    from 1(2) True g m obtain child p' where
      s: "select W (node_children n1 ! i) (snd (apply_place W (colour bw) pos b)) = Inr (child, p', b1)"
      and t1: "t1 = set_children ((node_children n1)[i := child]) n1" and p: "p = i # p'"
      by (subst (asm) select.simps) (auto split: sum.splits)
    from 1(1) [OF True g refl m [symmetric] s]
    have ih: "forget_scores child = forget_scores (node_children n1 ! i)"
      "valid_path child p'"
      "has_untried_moves (node_at child p') \<or> \<not> has_children (node_at child p')" by auto
    note gi = get_UCT_child_Inr [OF g]
    have i1: "i < length (node_children n1)" using gi by simp
    have "map forget_scores ((node_children n1)[i := child]) = map forget_scores (node_children n1)"
      using ih(1) i1 by (simp add: map_update list_update_same_conv)
    then have "forget_scores t1 = forget_scores n1"
      unfolding t1 by (simp add: forget_scores_set_children set_children_same)
    with gi(2) have a: "forget_scores t1 = forget_scores n" by simp
    have b: "valid_path t1 p" unfolding t1 p using i1 ih(2) by simp
    have c: "node_at t1 p = node_at child p'" unfolding t1 p using i1 by simp
    from a b c ih(3) show ?thesis by simp
  qed
qed

lemma select_total: "\<exists>t1 p b1. select W t b = Inr (t1, p, b1)"
proof (induction W t b rule: select.induct)
  case (1 W n b)
  show ?case
  proof (cases "\<not> has_untried_moves n \<and> has_children n")
    case False
    then show ?thesis by (subst select.simps) auto
  next
    case True
    then have "node_children n \<noteq> []" by (simp add: has_children_def)
    from get_UCT_child_total [OF this] obtain n1 i where g: "get_UCT_child W n = Inr (n1, i)" by blast
    obtain bw pos where m: "get_move (node_children n1 ! i) = (bw, pos)" by (cases "get_move (node_children n1 ! i)")
    from 1 [OF True g refl m [symmetric]] obtain child p' b'
      where "select W (node_children n1 ! i) (snd (apply_place W (colour bw) pos b)) = Inr (child, p', b')"
      by blast
    with True g m show ?thesis by (simp add: select.simps [of W n b])
  qed
qed

lemma pop_untried_move_Inr:
  assumes "pop_untried_move W n = Inr ((bw, pos), n1)"
  shows "node_children n1 = node_children n" "node_visits n1 = node_visits n"
    "node_wins n1 = node_wins n" "node_bw n1 = node_bw n" "bw = one_minus (node_bw n)"
    "\<exists>k < length (node_moves n).
        uniform_int W (length (node_moves n) - 1) (node_engine n) = (k, node_engine n1)
        \<and> pos = node_moves n ! k
        \<and> node_moves n1 = take k (node_moves n) @ drop (Suc k) (node_moves n)"
  using assms
  by (auto simp: pop_untried_move_def Let_def split: prod.splits if_splits)

lemma pop_untried_move_total:
  assumes "draws_in_range W" and "node_moves n \<noteq> []"
  shows "\<exists>r. pop_untried_move W n = Inr r"
proof -
  obtain k e' where d: "uniform_int W (length (node_moves n) - 1) (node_engine n) = (k, e')"
    by (cases "uniform_int W (length (node_moves n) - 1) (node_engine n)")
  from assms(1) have "fst (uniform_int W (length (node_moves n) - 1) (node_engine n))
      \<le> length (node_moves n) - 1" unfolding draws_in_range_def by blast
  with d assms(2) have "k < length (node_moves n)" by (cases "node_moves n") auto
  with d show ?thesis by (simp add: pop_untried_move_def Let_def)
qed

lemma expansion_cases:
  assumes "expansion W e t p b = Inr (t2, p2, b2)"
  obtains (stay) "\<not> has_untried_moves (node_at t p)" "t2 = t" "p2 = p" "b2 = b"
  | (grow) bw pos node1 where "has_untried_moves (node_at t p)"
      "pop_untried_move W (node_at t p) = Inr ((bw, pos), node1)"
      "b2 = snd (apply_place W (colour bw) pos b)"
      "t2 = modify_at (\<lambda>_. set_children (node_children node1 @ [new_node W e b2 bw pos]) node1) p t"
      "p2 = p @ [length (node_children node1)]"
  using assms
  by (auto simp: expansion_def add_child_def Let_def split: if_splits sum.splits prod.splits)

lemma expansion_total:
  assumes "draws_in_range W"
  shows "\<exists>r. expansion W e t p b = Inr r"
proof (cases "has_untried_moves (node_at t p)")
  case True
  then have "node_moves (node_at t p) \<noteq> []" by (simp add: has_untried_moves_def)
  from pop_untried_move_total [OF assms this] obtain m n1
    where "pop_untried_move W (node_at t p) = Inr (m, n1)" by auto
  with True show ?thesis
    by (cases m) (simp add: expansion_def add_child_def Let_def)
next
  case False
  then show ?thesis by (simp add: expansion_def)
qed

lemma expansion_frame:
  fixes W :: "('b, 'g, 'd) world"
  assumes ex: "expansion W e t p b = Inr (t2, p2, b2)" and vp: "valid_path t p"
  shows "valid_path t2 p2"
    and "valid_path t q \<Longrightarrow> valid_path t2 q"
    and "valid_path t q \<Longrightarrow> node_visits (node_at t2 q) = node_visits (node_at t q)"
    and "valid_path t q \<Longrightarrow> node_wins (node_at t2 q) = node_wins (node_at t q)"
    and "valid_path t q \<Longrightarrow> node_bw (node_at t2 q) = node_bw (node_at t q)"
    and "valid_path t2 q \<Longrightarrow> valid_path t q \<or> q = p2"
    and "p2 = p \<or> (\<not> valid_path t p2 \<and> node_visits (node_at t2 p2) = 0
            \<and> node_wins (node_at t2 p2) = 0 \<and> node_children (node_at t2 p2) = [])"
proof -
  have "valid_path t2 p2 \<and> (valid_path t q \<longrightarrow> valid_path t2 q
      \<and> node_visits (node_at t2 q) = node_visits (node_at t q)
      \<and> node_wins (node_at t2 q) = node_wins (node_at t q)
      \<and> node_bw (node_at t2 q) = node_bw (node_at t q))
    \<and> (valid_path t2 q \<longrightarrow> valid_path t q \<or> q = p2)
    \<and> (p2 = p \<or> (\<not> valid_path t p2 \<and> node_visits (node_at t2 p2) = 0
            \<and> node_wins (node_at t2 p2) = 0 \<and> node_children (node_at t2 p2) = []))"
  using ex
  proof (cases rule: expansion_cases)
    case stay
    with vp show ?thesis by simp
  next
    case (grow bw pos node1)
    let ?n = "node_at t p"
    let ?c = "new_node W e b2 bw pos"
    let ?n2 = "set_children (node_children node1 @ [?c]) node1"
    let ?f = "\<lambda>_::('g, 'd) node. ?n2"
    note pop = pop_untried_move_Inr [OF grow(2)]
    have ch: "node_children (?f ?n) = node_children ?n @ [?c]" using pop(1) by simp
    have at_p: "node_at t2 p = ?n2" unfolding grow(4) using vp by (rule node_at_modify_at_same)
    have v2p: "valid_path t2 p"
      unfolding grow(4) using valid_path_modify_at_old [where f = ?f, OF vp vp ch] .
    have a: "valid_path t2 p2"
      unfolding grow(5) using v2p at_p by (simp add: valid_path_append)
    have at_p2: "node_at t2 p2 = ?c"
      unfolding grow(5) using v2p at_p by (simp add: node_at_append)
    have nv: "\<not> valid_path t p2"
      unfolding grow(5) using vp pop(1) by (simp add: valid_path_append)
    have b: "valid_path t2 q \<and> node_visits (node_at t2 q) = node_visits (node_at t q)
      \<and> node_wins (node_at t2 q) = node_wins (node_at t q)
      \<and> node_bw (node_at t2 q) = node_bw (node_at t q)" if vq: "valid_path t q"
    proof -
      have 1: "valid_path t2 q"
        unfolding grow(4) using valid_path_modify_at_old [where f = ?f, OF vp vq ch] .
      have 2: "node_visits (node_at t2 q) = node_visits (node_at t q)"
        unfolding grow(4)
        using node_at_modify_at_field [where f = ?f and g = node_visits, OF vp vq ch] pop(2)
        by auto
      have 3: "node_wins (node_at t2 q) = node_wins (node_at t q)"
        unfolding grow(4)
        using node_at_modify_at_field [where f = ?f and g = node_wins, OF vp vq ch] pop(3)
        by auto
      have 4: "node_bw (node_at t2 q) = node_bw (node_at t q)"
        unfolding grow(4)
        using node_at_modify_at_field [where f = ?f and g = node_bw, OF vp vq ch] pop(4)
        by auto
      from 1 2 3 4 show ?thesis by simp
    qed
    have c: "valid_path t q \<or> q = p2" if v2q: "valid_path t2 q"
    proof (cases "prefix p q")
      case False
      with v2q vp show ?thesis unfolding grow(4) by (simp add: valid_path_modify_at)
    next
      case True
      then obtain r where q: "q = p @ r" by (auto simp: prefix_def)
      from v2q vp q have vr: "valid_path ?n2 r"
        unfolding grow(4) by (simp add: valid_path_modify_at)
      show ?thesis
      proof (cases r)
        case Nil
        with q vp show ?thesis by simp
      next
        case (Cons j r')
        show ?thesis
        proof (cases "j < length (node_children node1)")
          case True
          with vr Cons pop(1) have "valid_path ?n r" by (simp add: nth_append)
          with vp q show ?thesis by (simp add: valid_path_append)
        next
          case False
          with vr Cons have j: "j = length (node_children node1)" by simp
          with vr Cons have "valid_path ?c r'" by simp
          then have "r' = []" by (cases r') simp_all
          with j Cons q grow(5) show ?thesis by simp
        qed
      qed
    qed
    from a b c nv at_p2 show ?thesis by simp
  qed
  then show "valid_path t2 p2"
    and "valid_path t q \<Longrightarrow> valid_path t2 q"
    and "valid_path t q \<Longrightarrow> node_visits (node_at t2 q) = node_visits (node_at t q)"
    and "valid_path t q \<Longrightarrow> node_wins (node_at t2 q) = node_wins (node_at t q)"
    and "valid_path t q \<Longrightarrow> node_bw (node_at t2 q) = node_bw (node_at t q)"
    and "valid_path t2 q \<Longrightarrow> valid_path t q \<or> q = p2"
    and "p2 = p \<or> (\<not> valid_path t p2 \<and> node_visits (node_at t2 p2) = 0
            \<and> node_wins (node_at t2 p2) = 0 \<and> node_children (node_at t2 p2) = [])"
    by blast+
qed

lemma legal_positions_mem:
  "pos \<in> set (legal_positions W b bw) \<longleftrightarrow> pos < size_xy W \<and> fst (apply_place W (colour bw) pos b)"
  by (auto simp: legal_positions_def)

lemma rollout_bounded:
  assumes fills: "board_fills W empties" and draws: "draws_in_range W"
  shows "\<exists>e' bw' k. rollout W e b bw plies = Some (Inr (e', bw', k))
           \<and> k \<le> plies + card (empties b)"
proof (induction "card (empties b)" arbitrary: e b bw plies rule: less_induct)
  case less
  let ?moves = "legal_positions W b bw"
  show ?case
  proof (cases "?moves = []")
    case True
    then show ?thesis by (subst rollout.simps) simp
  next
    case False
    obtain k e' where d: "uniform_int W (length ?moves - 1) e = (k, e')"
      by (cases "uniform_int W (length ?moves - 1) e")
    from draws have "fst (uniform_int W (length ?moves - 1) e) \<le> length ?moves - 1"
      unfolding draws_in_range_def by blast
    with d False have k: "k < length ?moves" by (cases ?moves) auto
    let ?pos = "?moves ! k"
    let ?b = "snd (apply_place W (colour bw) ?pos b)"
    from k have "?pos \<in> set ?moves" by simp
    then have legal: "fst (apply_place W (colour bw) ?pos b)"
      by (simp add: legal_positions_mem)
    from \<open>?pos \<in> set ?moves\<close> have "?pos < size_xy W" by (simp add: legal_positions_mem)
    with fills legal have mem: "?pos \<in> empties b" and eq: "empties ?b = empties b - {?pos}"
      unfolding board_fills_def by blast+
    from fills have "empties b \<subseteq> {..<size_xy W}" unfolding board_fills_def by blast
    then have fin: "finite (empties b)" by (rule finite_subset) simp
    from mem fin have "card (empties b - {?pos}) < card (empties b)"
      by (rule_tac card_Diff1_less)
    with eq have lt: "card (empties ?b) < card (empties b)" by simp
    from less [OF lt, of e' "one_minus bw" "Suc plies"] obtain e'' bw'' k'
      where r: "rollout W e' ?b (one_minus bw) (Suc plies) = Some (Inr (e'', bw'', k'))"
        and le: "k' \<le> Suc plies + card (empties ?b)" by blast
    from le lt have "k' \<le> plies + card (empties b)" by simp
    with r False d k show ?thesis by (subst rollout.simps) simp
  qed
qed

lemma forget_eq_fields:
  assumes "forget_scores t1 = forget_scores t"
  shows "valid_path t1 q = valid_path t q"
    and "valid_path t q \<Longrightarrow> node_visits (node_at t1 q) = node_visits (node_at t q)"
    and "valid_path t q \<Longrightarrow> node_wins (node_at t1 q) = node_wins (node_at t q)"
    and "valid_path t q \<Longrightarrow> node_bw (node_at t1 q) = node_bw (node_at t q)"
proof -
  show v: "valid_path t1 q = valid_path t q"
    using assms valid_path_forget [of t1 q] valid_path_forget [of t q] by simp
  assume vq: "valid_path t q"
  with v have vq1: "valid_path t1 q" by simp
  from assms have eq: "forget_scores (node_at t1 q) = forget_scores (node_at t q)"
    using node_at_forget [OF vq] node_at_forget [OF vq1] by simp
  from arg_cong [OF eq, of node_visits] show "node_visits (node_at t1 q) = node_visits (node_at t q)"
    by simp
  from arg_cong [OF eq, of node_wins] show "node_wins (node_at t1 q) = node_wins (node_at t q)"
    by simp
  from arg_cong [OF eq, of node_bw] show "node_bw (node_at t1 q) = node_bw (node_at t q)"
    by simp
qed

lemma iteration_Inr:
  assumes "iteration W state t e = Some (Inr r)"
  obtains t1 p1 b1 t2 b2 bw where
    "select W t state = Inr (t1, p1, b1)"
    "expansion W e t1 p1 b1 = Inr (t2, pass_node r, b2)"
    "rollout W e b2 (one_minus (node_bw (node_at t2 (pass_node r)))) 0
       = Some (Inr (pass_engine r, bw, pass_plies r))"
    "pass_winner r = one_minus bw"
    "pass_root r = backpropagate (pass_winner r) t2 (pass_node r)"
  using assms unfolding iteration_def
  by (auto split: sum.splits option.splits prod.splits)

lemma iteration_total:
  assumes "board_fills W empties" and "draws_in_range W"
  shows "\<exists>r. iteration W state t e = Some (Inr r)"
proof -
  obtain t1 p1 b1 where s: "select W t state = Inr (t1, p1, b1)"
    using select_total [of W t state] by blast
  obtain t2 p2 b2 where x: "expansion W e t1 p1 b1 = Inr (t2, p2, b2)"
    using expansion_total [OF assms(2), of e t1 p1 b1] by auto
  obtain e' bw k where "rollout W e b2 (one_minus (node_bw (node_at t2 p2))) 0 = Some (Inr (e', bw, k))"
    using rollout_bounded [OF assms, of e b2 "one_minus (node_bw (node_at t2 p2))" 0] by blast
  with s x show ?thesis by (simp add: iteration_def)
qed

lemma iteration_counters:
  assumes it: "iteration W state t e = Some (Inr r)"
  shows "valid_path (pass_root r) (pass_node r)
    \<and> (valid_path (pass_root r) q \<longleftrightarrow> valid_path t q \<or> q = pass_node r)
    \<and> (valid_path t q \<longrightarrow>
          node_visits (node_at (pass_root r) q)
            = node_visits (node_at t q) + (if prefix q (pass_node r) then 1 else 0)
        \<and> node_wins (node_at (pass_root r) q)
            = node_wins (node_at t q)
              + (if prefix q (pass_node r) \<and> pass_winner r = node_bw (node_at t q) then 1 else 0)
        \<and> node_bw (node_at (pass_root r) q) = node_bw (node_at t q))
    \<and> (\<not> valid_path t (pass_node r) \<longrightarrow>
          node_visits (node_at (pass_root r) (pass_node r)) = 1
        \<and> node_wins (node_at (pass_root r) (pass_node r))
            = (if pass_winner r = node_bw (node_at (pass_root r) (pass_node r)) then 1 else 0))"
  using it
proof (cases rule: iteration_Inr)
  case (1 t1 p1 b1 t2 b2 bw)
  let ?p = "pass_node r" and ?w = "pass_winner r"
  note sel = select_frame [OF 1(1)]
  from sel have fg: "forget_scores t1 = forget_scores t" and vp1: "valid_path t1 p1" by simp_all
  note f1 = forget_eq_fields [OF fg]
  note ex = expansion_frame [OF 1(2) vp1]
  have v2: "valid_path t2 ?p" by (rule ex(1))
  note bp = backpropagate_counters [OF v2, of _ ?w]
  have bv: "valid_path (pass_root r) q' = valid_path t2 q'" for q'
    unfolding 1(5) by (rule backpropagate_valid_path [OF v2])
  have a: "valid_path (pass_root r) ?p" using bv v2 by simp
  have b: "valid_path (pass_root r) q \<longleftrightarrow> valid_path t q \<or> q = ?p"
    using bv [of q] ex(2) [of q] ex(6) [of q] f1(1) [of q] v2 by blast
  have c: "node_visits (node_at (pass_root r) q)
            = node_visits (node_at t q) + (if prefix q ?p then 1 else 0)
        \<and> node_wins (node_at (pass_root r) q)
            = node_wins (node_at t q) + (if prefix q ?p \<and> ?w = node_bw (node_at t q) then 1 else 0)
        \<and> node_bw (node_at (pass_root r) q) = node_bw (node_at t q)" if vq: "valid_path t q"
  proof -
    from vq f1(1) have vq1: "valid_path t1 q" by simp
    then have vq2: "valid_path t2 q" by (rule ex(2))
    from bp [OF vq2] ex(3) [OF vq1] ex(4) [OF vq1] ex(5) [OF vq1] f1(2) [OF vq] f1(3) [OF vq] f1(4) [OF vq]
    show ?thesis unfolding 1(5) by simp
  qed
  have d: "node_visits (node_at (pass_root r) ?p) = 1
        \<and> node_wins (node_at (pass_root r) ?p)
            = (if ?w = node_bw (node_at (pass_root r) ?p) then 1 else 0)" if nv: "\<not> valid_path t ?p"
  proof -
    from nv f1(1) have "\<not> valid_path t1 ?p" by simp
    with vp1 ex(7) have z: "node_visits (node_at t2 ?p) = 0" "node_wins (node_at t2 ?p) = 0" by auto
    from bp [OF v2] z show ?thesis unfolding 1(5) by simp
  qed
  from a b c d show ?thesis by blast
qed

section \<open>Properties of the search\<close>

lemma forget_scores_modify_at:
  assumes "valid_path t p" and "forget_scores (f (node_at t p)) = forget_scores (node_at t p)"
  shows "forget_scores (modify_at f p t) = forget_scores t"
  using assms
proof (induction p arbitrary: t)
  case Nil
  then show ?case by simp
next
  case (Cons i p)
  from Cons.prems have i: "i < length (node_children t)" by simp
  from Cons.prems Cons.IH [of "node_children t ! i"]
  have "forget_scores (modify_at f p (node_children t ! i)) = forget_scores (node_children t ! i)"
    by simp
  with i have "map forget_scores ((node_children t)[i := modify_at f p (node_children t ! i)])
      = map forget_scores (node_children t)"
    by (simp add: map_update list_update_same_conv)
  then show ?case by (cases t) simp
qed

lemma wins_le_visits_update_at:
  assumes inv: "\<And>q. valid_path t q \<Longrightarrow> node_wins (node_at t q) \<le> node_visits (node_at t q)"
    and vp: "valid_path t p"
    and vq: "valid_path (modify_at (\<lambda>node. update (winner = node_bw node) node) p t) q"
  shows "node_wins (node_at (modify_at (\<lambda>node. update (winner = node_bw node) node) p t) q)
       \<le> node_visits (node_at (modify_at (\<lambda>node. update (winner = node_bw node) node) p t) q)"
proof -
  let ?f = "\<lambda>node. update (winner = node_bw node) node"
  from vq vp have vq': "valid_path t q" by (simp add: valid_path_update_at)
  have ch: "node_children (?f (node_at t p)) = node_children (node_at t p) @ []" by simp
  from node_at_modify_at_field [where f = ?f and g = node_visits, OF vp vq' ch]
    node_at_modify_at_field [where f = ?f and g = node_wins, OF vp vq' ch] inv [OF vq']
  show ?thesis by (simp split: if_splits)
qed

lemma backpropagate_Nil:
  "backpropagate winner t [] = update (winner = node_bw t) t"
  by (simp add: backpropagate.simps [of winner t "[]"])

lemma backpropagate_step:
  "p \<noteq> [] \<Longrightarrow> backpropagate winner t p
     = backpropagate winner (modify_at (\<lambda>node. update (winner = node_bw node) node) p t) (butlast p)"
  by (simp add: backpropagate.simps [of winner t p] Let_def)

lemma during_search_backpropagate:
  "during_search W state t \<Longrightarrow> valid_path t p \<Longrightarrow> during_search W state (backpropagate winner t p)"
proof (induction winner t p rule: backpropagate.induct)
  case (1 winner t p)
  let ?t' = "modify_at (\<lambda>node. update (winner = node_bw node) node) p t"
  have d: "during_search W state ?t'" using 1(2,3) by (rule during_search.updated)
  show ?case
  proof (cases "p = []")
    case True
    with d show ?thesis by (simp add: backpropagate_Nil)
  next
    case False
    have "valid_path ?t' (butlast p)"
      using 1(3) by (auto simp: valid_path_update_at intro: valid_path_prefix prefixeq_butlast)
    from 1(1) [OF refl False d this] False show ?thesis
      by (simp add: backpropagate_step)
  qed
qed

lemma during_search_iteration:
  assumes "during_search W state t" and "iteration W state t e = Some (Inr r)"
  shows "during_search W state (pass_root r)"
  using assms(2)
proof (cases rule: iteration_Inr)
  case (1 t1 p1 b1 t2 b2 bw)
  from assms(1) 1(1) have d1: "during_search W state t1" by (rule during_search.selected)
  from select_frame [OF 1(1)] have vp1: "valid_path t1 p1" by simp
  from d1 vp1 1(2) have d2: "during_search W state t2" by (rule during_search.expanded)
  from expansion_frame(1) [OF 1(2) vp1] have "valid_path t2 (pass_node r)" .
  with d2 show ?thesis unfolding 1(5) by (rule during_search_backpropagate)
qed

lemma pass_start_during_search: "pass_start W state t \<Longrightarrow> during_search W state t"
  by (induction rule: pass_start.induct)
     (auto intro: during_search.created during_search_iteration)

lemma search_pass_start:
  "pass_start W state t \<Longrightarrow> search W cyc state t e itr = Some (Inr (t', e', k))
     \<Longrightarrow> pass_start W state t'"
proof (induction W cyc state t e itr rule: search.induct)
  case (1 W cyc state t e itr)
  from 1(3) obtain r where it: "iteration W state t e = Some (Inr r)"
    by (simp add: search.simps [of W cyc state t e itr] split: option.splits sum.splits)
  from 1(2) it have ps: "pass_start W state (pass_root r)" by (rule pass_start.next_pass)
  from 1(3) it have no: "\<not> INT_MAX \<le> int itr"
    by (simp add: search.simps [of W cyc state t e itr] split: if_splits)
  show ?case
  proof (cases "clock W (Suc itr) < 1 \<and> int (Suc itr) \<le> cyc")
    case True
    with 1(3) it no have "search W cyc state (pass_root r) (pass_engine r) (Suc itr) = Some (Inr (t', e', k))"
      by (simp add: search.simps [of W cyc state t e itr])
    from 1(1) [OF it refl no True ps this] show ?thesis .
  next
    case False
    with 1(3) it no have "t' = pass_root r"
      by (simp add: search.simps [of W cyc state t e itr] split: if_splits)
    with ps show ?thesis by simp
  qed
qed

lemma pass_start_visited:
  assumes "pass_start W state t" and "valid_path t q" and "q \<noteq> []"
  shows "1 \<le> node_visits (node_at t q)"
  using assms
proof (induction arbitrary: q rule: pass_start.induct)
  case (first_pass e bw pos)
  then show ?case by (cases q) simp_all
next
  case (next_pass t e r)
  note c = iteration_counters [OF next_pass.hyps(2), of q]
  show ?case
  proof (cases "valid_path t q")
    case True
    from next_pass.IH [OF True next_pass.prems(2)] c True show ?thesis by simp
  next
    case False
    with c next_pass.prems(1) have "q = pass_node r" by blast
    with c False show ?thesis by simp
  qed
qed

lemma search_count:
  assumes "search W cyc state t e itr = Some (Inr (t', e', k))"
  shows "itr < k \<and> int k \<le> max (cyc + 1) (int itr + 1)
    \<and> ((\<forall>j. itr < j \<and> int j \<le> cyc \<longrightarrow> clock W j < 1) \<and> int itr \<le> cyc \<longrightarrow> int k = cyc + 1)"
  using assms
proof (induction W cyc state t e itr rule: search.induct)
  case (1 W cyc state t e itr)
  from 1(2) obtain r where it: "iteration W state t e = Some (Inr r)"
    by (simp add: search.simps [of W cyc state t e itr] split: option.splits sum.splits)
  from 1(2) it have no: "\<not> INT_MAX \<le> int itr"
    by (simp add: search.simps [of W cyc state t e itr] split: if_splits)
  show ?case
  proof (cases "clock W (Suc itr) < 1 \<and> int (Suc itr) \<le> cyc")
    case True
    with 1(2) it no have "search W cyc state (pass_root r) (pass_engine r) (Suc itr) = Some (Inr (t', e', k))"
      by (simp add: search.simps [of W cyc state t e itr])
    from 1(1) [OF it refl no True this] True show ?thesis by auto
  next
    case False
    with 1(2) it no have "k = Suc itr"
      by (simp add: search.simps [of W cyc state t e itr] split: if_splits)
    with False show ?thesis by auto
  qed
qed

lemma search_returns:
  assumes "\<And>t e. \<exists>r. iteration W state t e = Some (Inr r)"
    and "cyc < INT_MAX" and "int itr < INT_MAX"
  shows "\<exists>t' e' k. search W cyc state t e itr = Some (Inr (t', e', k))"
  using assms
proof (induction W cyc state t e itr rule: search.induct)
  case (1 W cyc state t e itr)
  from 1(2) obtain r where it: "iteration W state t e = Some (Inr r)" by blast
  from 1(4) have no: "\<not> INT_MAX \<le> int itr" by simp
  show ?case
  proof (cases "clock W (Suc itr) < 1 \<and> int (Suc itr) \<le> cyc")
    case True
    with 1(3) have "int (Suc itr) < INT_MAX" by simp
    from 1(1) [OF it refl no True 1(2) 1(3) this] it no True show ?thesis
      by (simp add: search.simps [of W cyc state t e itr])
  next
    case False
    with it no show ?thesis
      by (auto simp add: search.simps [of W cyc state t e itr])
  qed
qed

lemma search_overflows:
  assumes "\<And>t e. \<exists>r. iteration W state t e = Some (Inr r)"
    and "\<And>j. clock W j < 1" and "int itr \<le> INT_MAX"
  shows "search W INT_MAX state t e itr = Some (Inl Signed_overflow)"
  using assms
proof (induction W "INT_MAX" state t e itr rule: search.induct)
  case (1 W state t e itr)
  from 1(2) obtain r where it: "iteration W state t e = Some (Inr r)" by blast
  show ?case
  proof (cases "INT_MAX \<le> int itr")
    case True
    with it show ?thesis by (simp add: search.simps [of W INT_MAX state t e itr])
  next
    case False
    then have c: "clock W (Suc itr) < 1 \<and> int (Suc itr) \<le> INT_MAX" using 1(3) by simp
    from False have "int (Suc itr) \<le> INT_MAX" by simp
    from 1(1) [OF it refl False c 1(2) 1(3) this] it False c show ?thesis
      by (simp add: search.simps [of W INT_MAX state t e itr])
  qed
qed



subsection \<open>Positions and visit counts\<close>

lemma node_positions_forget [simp]: "node_positions (forget_scores n) = node_positions n"
  by (simp add: node_positions_def comp_def)

lemma node_positions_update [simp]: "node_positions (update win n) = node_positions n"
  by (simp add: node_positions_def)










subsection \<open>The map of visit counts\<close>







lemma search_returns_by:
  assumes "\<And>t e. \<exists>r. iteration W state t e = Some (Inr r)"
    and "itr < j" and "int j \<le> INT_MAX" and "\<not> (clock W j < 1 \<and> int j \<le> cyc)"
  shows "\<exists>t' e' k. search W cyc state t e itr = Some (Inr (t', e', k)) \<and> k \<le> j"
  using assms
proof (induction W cyc state t e itr rule: search.induct)
  case (1 W cyc state t e itr)
  from 1(2) obtain r where it: "iteration W state t e = Some (Inr r)" by blast
  from 1(3,4) have no: "\<not> INT_MAX \<le> int itr" by simp
  show ?case
  proof (cases "clock W (Suc itr) < 1 \<and> int (Suc itr) \<le> cyc")
    case True
    with 1(5) have "Suc itr \<noteq> j" by auto
    with 1(3) have lt: "Suc itr < j" by simp
    from 1(1) [OF it refl no True 1(2) lt 1(4) 1(5)] it no True show ?thesis
      by (simp add: search.simps [of W cyc state t e itr])
  next
    case False
    with it no 1(3) show ?thesis
      by (auto simp add: search.simps [of W cyc state t e itr])
  qed
qed


subsection \<open>Fields that the statistics do not touch\<close>

lemma backpropagate_static:
  assumes u: "\<And>w n. g (update w n) = g n" and sc: "\<And>cs n. g (set_children cs n) = g n"
    and "valid_path t p" and "valid_path t q"
  shows "g (node_at (backpropagate winner t p) q) = g (node_at t q)"
  using assms(3,4)
proof (induction winner t p rule: backpropagate.induct)
  case (1 winner t p)
  let ?f = "\<lambda>node. update (winner = node_bw node) node"
  let ?t' = "modify_at ?f p t"
  have ch: "node_children (?f (node_at t p)) = node_children (node_at t p) @ []" by simp
  have g: "g (node_at ?t' q) = g (node_at t q)"
    using node_at_modify_at_field [where f = ?f and g = g, OF 1(2) 1(3) ch sc] u by simp
  show ?case
  proof (cases "p = []")
    case True
    with g show ?thesis by (simp add: backpropagate_Nil)
  next
    case False
    have vq: "valid_path ?t' q" using 1(2,3) by (simp add: valid_path_update_at)
    have vb: "valid_path ?t' (butlast p)"
      using 1(2) by (auto simp: valid_path_update_at intro: valid_path_prefix prefixeq_butlast)
    from 1(1) [OF refl False vb vq] g False show ?thesis by (simp add: backpropagate_step)
  qed
qed

lemma forget_eq_static:
  assumes "forget_scores t1 = forget_scores t" and "\<And>n. g (forget_scores n) = g n"
    and "valid_path t q"
  shows "g (node_at t1 q) = g (node_at t q)"
proof -
  from assms(1,3) have vq1: "valid_path t1 q" using forget_eq_fields(1) [OF assms(1)] by simp
  from assms(1) have "forget_scores (node_at t1 q) = forget_scores (node_at t q)"
    using node_at_forget [OF assms(3)] node_at_forget [OF vq1] by simp
  from arg_cong [OF this, of g] assms(2) show ?thesis by simp
qed

lemma expansion_static:
  fixes W :: "('b, 'g, 'd) world"
  assumes ex: "expansion W e t p b = Inr (t2, p2, b2)" and vp: "valid_path t p"
    and vq: "valid_path t q" and sc: "\<And>cs n. g (set_children cs n) = g n"
    and pop: "\<And>m n1. pop_untried_move W (node_at t p) = Inr (m, n1) \<Longrightarrow> g n1 = g (node_at t p)"
  shows "g (node_at t2 q) = g (node_at t q)"
  using ex
proof (cases rule: expansion_cases)
  case stay
  then show ?thesis by simp
next
  case (grow bw pos node1)
  let ?n2 = "set_children (node_children node1 @ [new_node W e b2 bw pos]) node1"
  let ?f = "\<lambda>_::('g, 'd) node. ?n2"
  have ch: "node_children (?f (node_at t p)) = node_children (node_at t p) @ [new_node W e b2 bw pos]"
    using pop_untried_move_Inr(1) [OF grow(2)] by simp
  from node_at_modify_at_field [where f = ?f and g = g, OF vp vq ch sc] pop [OF grow(2)] sc
  show ?thesis unfolding grow(4) by simp
qed

lemma exploration_constant_quarter:
  assumes "during_search W state t" and "valid_path t q"
  shows "node_exploration_constant (node_at t q) = d_quarter W"
  using assms
proof (induction arbitrary: q rule: during_search.induct)
  case (created e bw pos)
  then show ?case by (cases q) simp_all
next
  case (scored t p n' i)
  have "forget_scores n' = forget_scores (node_at t p)"
    using get_UCT_child_Inr(2) [OF scored.hyps(3)] .
  then have fg: "forget_scores (modify_at (\<lambda>_. n') p t) = forget_scores t"
    using forget_scores_modify_at [where f = "\<lambda>_. n'", OF scored.hyps(2)] by simp
  from scored.prems forget_eq_fields(1) [OF fg] have vq: "valid_path t q" by simp
  from forget_eq_static [where g = node_exploration_constant, OF fg _ vq] scored.IH [OF vq]
  show ?case by simp
next
  case (selected t t' p b)
  from select_frame [OF selected.hyps(2)] have fg: "forget_scores t' = forget_scores t" by simp
  from selected.prems forget_eq_fields(1) [OF fg] have vq: "valid_path t q" by simp
  from forget_eq_static [where g = node_exploration_constant, OF fg _ vq] selected.IH [OF vq]
  show ?case by simp
next
  case (expanded t p e b t' p' b')
  note ex = expansion_frame [OF expanded.hyps(3) expanded.hyps(2)]
  have pop: "node_exploration_constant n1 = node_exploration_constant (node_at t p)"
    if "pop_untried_move W (node_at t p) = Inr (m, n1)" for m n1
    using that by (auto simp: pop_untried_move_def Let_def split: prod.splits if_splits)
  have old: "node_exploration_constant (node_at t' q) = d_quarter W" if vq: "valid_path t q"
    using expansion_static [where g = node_exploration_constant,
        OF expanded.hyps(3) expanded.hyps(2) vq _ pop] expanded.IH [OF vq] by simp
  from ex(6) [OF expanded.prems] show ?case
  proof
    assume "valid_path t q"
    then show ?thesis by (rule old)
  next
    assume q: "q = p'"
    show ?thesis
    proof (cases "valid_path t q")
      case True
      then show ?thesis by (rule old)
    next
      case False
      from expanded.hyps(3) show ?thesis
      proof (cases rule: expansion_cases)
        case stay
        with False q expanded.hyps(2) show ?thesis by simp
      next
        case (grow bw pos node1)
        let ?n2 = "set_children (node_children node1 @ [new_node W e b' bw pos]) node1"
        have v2p: "valid_path t' p" using ex(2) [OF expanded.hyps(2)] .
        have "node_at t' p = ?n2"
          unfolding grow(4) using expanded.hyps(2) by (rule node_at_modify_at_same)
        with v2p have "node_at t' p' = new_node W e b' bw pos"
          unfolding grow(5) by (simp add: node_at_append)
        with q show ?thesis by simp
      qed
    qed
  qed
next
  case (updated t p winner)
  let ?f = "\<lambda>node. update (winner = node_bw node) node"
  from updated.prems updated.hyps(2) have vq: "valid_path t q" by (simp add: valid_path_update_at)
  have ch: "node_children (?f (node_at t p)) = node_children (node_at t p) @ []" by simp
  from node_at_modify_at_field [where f = ?f and g = node_exploration_constant,
      OF updated.hyps(2) vq ch] updated.IH [OF vq] updated.IH [OF updated.hyps(2)]
  show ?case by simp
qed

subsection \<open>What the tree model rests on\<close>

text \<open>
  A node that has a grandchild has no untried move left, at the start of every
  pass: so a vector of children that can still grow holds only nodes without
  children, and no \<^verbatim>\<open>parent_\<close> points into it.  And the loop ends, if it does,
  with at most \<open>INT_MAX\<close> passes made, which bounds every counter of a node.
\<close>

lemma select_passes_exhausted:
  "select W t b = Inr (t1, p, b1) \<Longrightarrow> strict_prefix q p \<Longrightarrow> node_moves (node_at t q) = []"
proof (induction W t b arbitrary: t1 p b1 q rule: select.induct)
  case (1 W n b)
  show ?case
  proof (cases "\<not> has_untried_moves n \<and> has_children n")
    case False
    with 1(2) have "p = []" by (simp add: select.simps [of W n b])
    with 1(3) show ?thesis by simp
  next
    case True
    from 1(2) True obtain n1 i where g: "get_UCT_child W n = Inr (n1, i)"
      by (simp add: select.simps [of W n b] split: sum.splits) auto
    obtain bw pos where m: "get_move (node_children n1 ! i) = (bw, pos)"
      by (cases "get_move (node_children n1 ! i)")
    from 1(2) True g m obtain child p' where
      s: "select W (node_children n1 ! i) (snd (apply_place W (colour bw) pos b)) = Inr (child, p', b1)"
      and p: "p = i # p'"
      by (simp add: select.simps [of W n b] split: sum.splits) auto
    note gi = get_UCT_child_Inr [OF g]
    show ?thesis
    proof (cases q)
      case Nil
      with True show ?thesis by (simp add: has_untried_moves_def)
    next
      case (Cons j q')
      with 1(3) p have j: "j = i" and sp: "strict_prefix q' p'" by simp_all
      from 1(1) [OF True g refl m [symmetric] s sp]
      have "node_moves (node_at (node_children n1 ! i) q') = []" .
      moreover have "valid_path (node_children n1 ! i) q'"
      proof -
        from select_frame [OF s] have fg: "forget_scores child = forget_scores (node_children n1 ! i)"
          and "valid_path child p'" by simp_all
        then have "valid_path (node_children n1 ! i) p'"
          using forget_eq_fields(1) [OF fg] by simp
        with sp show ?thesis by (auto intro: valid_path_prefix simp: strict_prefix_def)
      qed
      moreover have "valid_path (node_children n ! i) q' = valid_path (node_children n1 ! i) q'"
        using forget_eq_fields(1) [OF gi(4), of q'] by simp
      ultimately have "node_moves (node_at (node_children n ! i) q') = []"
        using forget_eq_static [where g = node_moves, OF gi(4), of q'] by simp
      with Cons j show ?thesis by simp
    qed
  qed
qed

lemma pass_start_grandchildren:
  fixes W :: "('b, 'g, 'd) world"
  assumes "pass_start W state t" and "valid_path t (q @ [i, j])"
  shows "node_moves (node_at t q) = []"
  using assms
proof (induction arbitrary: q i j rule: pass_start.induct)
  case (first_pass e bw pos)
  then show ?case by (cases q) simp_all
next
  case (next_pass t e r)
  from next_pass.hyps(2) show ?case
  proof (cases rule: iteration_Inr)
    case (1 t1 p1 b1 t2 b2 bw)
    let ?P = "q @ [i, j]"
    from select_frame [OF 1(1)] have fg: "forget_scores t1 = forget_scores t" and vp1: "valid_path t1 p1"
      by simp_all
    have v1: "valid_path t1 x = valid_path t x" for x by (rule forget_eq_fields(1) [OF fg])
    note fr = expansion_frame [OF 1(2) vp1]
    have v2: "valid_path t2 (pass_node r)" by (rule fr(1))
    from next_pass.prems have vP2: "valid_path t2 ?P"
      unfolding 1(5) by (simp add: backpropagate_valid_path [OF v2])
    then have vq2: "valid_path t2 q" by (simp add: valid_path_append)
    have bk: "node_moves (node_at (pass_root r) q) = node_moves (node_at t2 q)"
      unfolding 1(5) using backpropagate_static [where g = node_moves, OF _ _ v2 vq2] by simp
    have "node_moves (node_at t2 q) = []"
    proof (cases "valid_path t1 ?P")
      case True
      with v1 have vP: "valid_path t ?P" by simp
      then have vq: "valid_path t q" by (simp add: valid_path_append)
      from next_pass.IH [OF vP] forget_eq_static [where g = node_moves, OF fg _ vq]
      have m1: "node_moves (node_at t1 q) = []" by simp
      from vq v1 have vq1: "valid_path t1 q" by simp
      from 1(2) show ?thesis
      proof (cases rule: expansion_cases)
        case stay
        with m1 show ?thesis by simp
      next
        case (grow bw' pos node1)
        let ?n2 = "set_children (node_children node1 @ [new_node W e b2 bw' pos]) node1"
        let ?f = "\<lambda>_::('g, 'd) node. ?n2"
        have ch: "node_children (?f (node_at t1 p1))
            = node_children (node_at t1 p1) @ [new_node W e b2 bw' pos]"
          using pop_untried_move_Inr(1) [OF grow(2)] by simp
        from grow(1) m1 have "q \<noteq> p1" by (auto simp: has_untried_moves_def)
        with node_at_modify_at_field [where f = ?f and g = node_moves, OF vp1 vq1 ch] m1
        show ?thesis unfolding grow(4) by simp
      qed
    next
      case False
      with fr(6) [OF vP2] have P: "?P = pass_node r" by simp
      from 1(2) show ?thesis
      proof (cases rule: expansion_cases)
        case stay
        with P vp1 False show ?thesis by simp
      next
        case (grow bw' pos node1)
        let ?n2 = "set_children (node_children node1 @ [new_node W e b2 bw' pos]) node1"
        let ?f = "\<lambda>_::('g, 'd) node. ?n2"
        have ch: "node_children (?f (node_at t1 p1))
            = node_children (node_at t1 p1) @ [new_node W e b2 bw' pos]"
          using pop_untried_move_Inr(1) [OF grow(2)] by simp
        from P grow(5) have "(q @ [i]) @ [j] = p1 @ [length (node_children node1)]" by simp
        then have p1: "p1 = q @ [i]" by (simp only: append1_eq_conv)
        then have sp: "strict_prefix q p1" by (simp add: strict_prefix_def)
        from select_passes_exhausted [OF 1(1) sp] have m: "node_moves (node_at t q) = []" .
        from p1 vp1 have vq1: "valid_path t1 q" by (simp add: valid_path_append)
        with v1 have vq: "valid_path t q" by simp
        from m forget_eq_static [where g = node_moves, OF fg _ vq]
        have m1: "node_moves (node_at t1 q) = []" by simp
        from p1 have "q \<noteq> p1" by simp
        with node_at_modify_at_field [where f = ?f and g = node_moves, OF vp1 vq1 ch] m1
        show ?thesis unfolding grow(4) by simp
      qed
    qed
    with bk show ?thesis by simp
  qed
qed

lemma search_passes_le_INT_MAX:
  "search W cyc state t e itr = Some (Inr (t', e', k)) \<Longrightarrow> int k \<le> INT_MAX"
proof (induction W cyc state t e itr rule: search.induct)
  case (1 W cyc state t e itr)
  from 1(2) obtain r where it: "iteration W state t e = Some (Inr r)"
    by (simp add: search.simps [of W cyc state t e itr] split: option.splits sum.splits)
  from 1(2) it have no: "\<not> INT_MAX \<le> int itr"
    by (simp add: search.simps [of W cyc state t e itr] split: if_splits)
  show ?case
  proof (cases "clock W (Suc itr) < 1 \<and> int (Suc itr) \<le> cyc")
    case True
    with 1(2) it no have "search W cyc state (pass_root r) (pass_engine r) (Suc itr) = Some (Inr (t', e', k))"
      by (simp add: search.simps [of W cyc state t e itr])
    from 1(1) [OF it refl no True this] show ?thesis .
  next
    case False
    with 1(2) it no have "k = Suc itr"
      by (simp add: search.simps [of W cyc state t e itr] split: if_splits)
    with no show ?thesis by simp
  qed
qed

section \<open>A pass on the small world\<close>

text \<open>
  The first pass on two empty cells, for the player of colour 1: the root pops
  position 0, the child is created, the rollout plays the one remaining cell, and
  the winner is 0.
\<close>

lemma fill_world_first_pass:
  "iteration (fill_world 2) [False, False] (new_node (fill_world 2) 0 [False, False] 0 2) 0
     = Some (Inr \<lparr> pass_root = Node 1 [Node 0 [] [1] 1 0 (1 / 4) 1 0 None] [1] 0 2 (1 / 4) 1 1 None,
                    pass_engine = 1, pass_node = [0], pass_winner = 0, pass_plies = 1 \<rparr>)"
  by (simp add: iteration_def select.simps expansion_def pop_untried_move_def add_child_def
      new_node_def legal_positions_def fill_world_def colour_def has_untried_moves_def
      has_children_def Let_def upt_rec rollout.simps backpropagate.simps)

lemma fill_world_draws: "draws_in_range (fill_world n)"
  by (simp add: draws_in_range_def fill_world_def)

lemma fill_world_fills:
  "board_fills (fill_world n) (\<lambda>b. {i. i < n \<and> i < length b \<and> \<not> b ! i})"
  unfolding board_fills_def fill_world_def
  by (auto simp: nth_list_update)

lemma fill_world_first_tree:
  "pass_start (fill_world 2) [False, False]
     (Node 1 [Node 0 [] [1] 1 0 (1 / 4) 1 0 None] [1] 0 2 (1 / 4) 1 1 None)"
  using pass_start.next_pass [OF pass_start.first_pass fill_world_first_pass] by simp

lemma fill_world_second_pass:
  "iteration (fill_world 2) [False, False]
     (Node 1 [Node 0 [] [1] 1 0 (1 / 4) 1 0 None] [1] 0 2 (1 / 4) 1 1 None) 1
     = Some (Inr \<lparr> pass_root = Node 2 [Node 0 [] [1] 1 0 (1 / 4) 1 0 None,
                                         Node 1 [] [0] 1 1 (1 / 4) 1 0 None] [] 0 2 (1 / 4) 2 2 None,
                    pass_engine = 2, pass_node = [1], pass_winner = 0, pass_plies = 1 \<rparr>)"
  by (simp add: iteration_def select.simps expansion_def pop_untried_move_def add_child_def
      new_node_def legal_positions_def fill_world_def colour_def has_untried_moves_def
      has_children_def Let_def upt_rec rollout.simps backpropagate.simps)

lemma fill_world_two_passes:
  "search (fill_world 2) 1 [False, False] (new_node (fill_world 2) 0 [False, False] 0 2) 0 0
     = Some (Inr (Node 2 [Node 0 [] [1] 1 0 (1 / 4) 1 0 None,
                          Node 1 [] [0] 1 1 (1 / 4) 1 0 None] [] 0 2 (1 / 4) 2 2 None, 2, 2))"
proof -
  have c: "clock (fill_world 2) j < 1" for j by (simp add: fill_world_def)
  show ?thesis
    using fill_world_first_pass fill_world_second_pass
    by (simp add: search.simps [of _ _ _ _ _ 0] search.simps [of _ _ _ _ _ "Suc 0"]
        INT_MAX_def c)
qed

lemmas pass_defs = iteration_def select.simps expansion_def pop_untried_move_def add_child_def
      new_node_def legal_positions_def fill_world_def skip_world_def colour_def has_untried_moves_def
      has_children_def Let_def upt_rec rollout.simps backpropagate.simps
      numeral_2_eq_2 [symmetric] numeral_3_eq_3 [symmetric]


lemma skip_world_pass1:
  "iteration (skip_world 3) [False, False, False]
     (new_node (skip_world 3) 2 [False, False, False] 0 3) 2
   = Some (Inr \<lparr> pass_root = Node 3 [Node 2 [] [0, 2] 1 1 (1 / 4) 1 1 None] [0, 2] 0 3 (1 / 4) 1 0 None,
                  pass_engine = 4, pass_node = [0], pass_winner = 1, pass_plies = 2 \<rparr>)"
  by (simp add: pass_defs)

lemma skip_world_pass2:
  "iteration (skip_world 3) [False, False, False]
     (Node 3 [Node 2 [] [0, 2] 1 1 (1 / 4) 1 1 None] [0, 2] 0 3 (1 / 4) 1 0 None) 4
   = Some (Inr \<lparr> pass_root = Node 4 [Node 2 [] [0, 2] 1 1 (1 / 4) 1 1 None,
                                       Node 4 [] [0, 1] 1 2 (1 / 4) 1 1 None] [0] 0 3 (1 / 4) 2 0 None,
                  pass_engine = 6, pass_node = [1], pass_winner = 1, pass_plies = 2 \<rparr>)"
  by (simp add: pass_defs)

lemmas shared_defs = iteration_shared_def select.simps expansion_shared_def pop_untried_move_shared_def
      add_child_def new_node_def legal_positions_def fill_world_def skip_world_def colour_def
      has_untried_moves_def has_children_def Let_def upt_rec rollout.simps backpropagate.simps
      numeral_2_eq_2 [symmetric] numeral_3_eq_3 [symmetric]

lemma skip_world_shared_pass1:
  "iteration_shared (skip_world 3) [False, False, False]
     (new_node (skip_world 3) 2 [False, False, False] 0 3) 2
   = Some (Inr \<lparr> pass_root = Node 2 [Node 3 [] [0, 2] 1 1 (1 / 4) 1 1 None] [0, 2] 0 3 (1 / 4) 1 0 None,
                  pass_engine = 5, pass_node = [0], pass_winner = 1, pass_plies = 2 \<rparr>)"
  by (simp add: shared_defs)

lemma skip_world_shared_pass2:
  "iteration_shared (skip_world 3) [False, False, False]
     (Node 2 [Node 3 [] [0, 2] 1 1 (1 / 4) 1 1 None] [0, 2] 0 3 (1 / 4) 1 0 None) 5
   = Some (Inr \<lparr> pass_root = Node 2 [Node 3 [] [0, 2] 1 1 (1 / 4) 1 1 None,
                                       Node 6 [] [1, 2] 1 0 (1 / 4) 1 1 None] [2] 0 3 (1 / 4) 2 0 None,
                  pass_engine = 8, pass_node = [1], pass_winner = 1, pass_plies = 2 \<rparr>)"
  by (simp add: shared_defs)

lemma skip_world_clock: "clock (skip_world n) j < 1"
  by (simp add: skip_world_def fill_world_def)

lemma skip_world_search:
  "search (skip_world 3) 1 [False, False, False]
     (new_node (skip_world 3) 2 [False, False, False] 0 3) 2 0
   = Some (Inr (Node 4 [Node 2 [] [0, 2] 1 1 (1 / 4) 1 1 None,
                        Node 4 [] [0, 1] 1 2 (1 / 4) 1 1 None] [0] 0 3 (1 / 4) 2 0 None, 6, 2))"
  using skip_world_pass1 skip_world_pass2
  by (simp add: search.simps [of _ _ _ _ _ 0] search.simps [of _ _ _ _ _ "Suc 0"]
      INT_MAX_def skip_world_clock)

lemma skip_world_search_shared:
  "search_shared (skip_world 3) 1 [False, False, False]
     (new_node (skip_world 3) 2 [False, False, False] 0 3) 2 0
   = Some (Inr (Node 2 [Node 3 [] [0, 2] 1 1 (1 / 4) 1 1 None,
                        Node 6 [] [1, 2] 1 0 (1 / 4) 1 1 None] [2] 0 3 (1 / 4) 2 0 None, 8, 2))"
  using skip_world_shared_pass1 skip_world_shared_pass2
  by (simp add: search_shared.simps [of _ _ _ _ _ 0] search_shared.simps [of _ _ _ _ _ "Suc 0"]
      INT_MAX_def skip_world_clock)

section \<open>Searches on the small worlds\<close>

subsection \<open>One cell\<close>

text \<open>
  The arithmetic of the small world has a strict order.  On one cell, the search
  of the player of colour 1 with \<open>cycles = 1\<close> makes two passes; the second one
  stores the score 1 in the only child of the root.
\<close>

lemma fill_world_less: "less_is_strict (fill_world n)"
  by (auto simp: less_is_strict_def fill_world_def)

lemma sqrt_ln_3: "sqrt (ln 3 / 2) * (1 / 4) < 1 + sqrt (ln (3 :: real)) * (1 / 4)"
proof -
  have "0 < ln (3 :: real)" by simp
  then have "ln (3 :: real) / 2 \<le> ln 3" by simp
  then have "sqrt (ln 3 / 2) \<le> sqrt (ln (3 :: real))" by (rule real_sqrt_le_mono)
  moreover have "0 \<le> sqrt (ln (3 :: real))" by simp
  ultimately show ?thesis by linarith
qed

lemma fill_world_one_cell:
  "search (fill_world 1) 1 [False] (new_node (fill_world 1) 0 [False] 0 1) 0 0
     = Some (Inr (Node 1 [Node 0 [] [] 1 0 (1 / 4) 2 2 (Some 1)] [] 0 1 (1 / 4) 2 0 None, 0, 2))"
proof -
  have p1: "iteration (fill_world 1) [False] (new_node (fill_world 1) 0 [False] 0 1) 0
     = Some (Inr \<lparr> pass_root = Node 1 [Node 0 [] [] 1 0 (1 / 4) 1 1 None] [] 0 1 (1 / 4) 1 0 None,
                    pass_engine = 0, pass_node = [0], pass_winner = 1, pass_plies = 0 \<rparr>)"
    by (simp add: pass_defs)
  have p2: "iteration (fill_world 1) [False]
       (Node 1 [Node 0 [] [] 1 0 (1 / 4) 1 1 None] [] 0 1 (1 / 4) 1 0 None) 0
     = Some (Inr \<lparr> pass_root = Node 1 [Node 0 [] [] 1 0 (1 / 4) 2 2 (Some 1)] [] 0 1 (1 / 4) 2 0 None,
                    pass_engine = 0, pass_node = [0], pass_winner = 1, pass_plies = 0 \<rparr>)"
    by (simp add: pass_defs get_UCT_child_def uct_def max_element_def get_move_def)
  have c: "clock (fill_world n) j < 1" for n j by (simp add: fill_world_def)
  from p1 p2 show ?thesis
    by (simp add: search.simps [of _ _ _ _ _ 0] search.simps [of _ _ _ _ _ "Suc 0"]
        INT_MAX_def c)
qed

subsection \<open>Two cells, with a clock\<close>

text \<open>
  With two passes in a second the clock ends the loop after the second pass,
  whatever \<open>cycles\<close> is.
\<close>

lemma timed_world_draws: "draws_in_range (timed_world n rate)"
  by (simp add: draws_in_range_def timed_world_def fill_world_def)

lemma timed_world_fills:
  "board_fills (timed_world n rate) (\<lambda>b. {i. i < n \<and> i < length b \<and> \<not> b ! i})"
  unfolding board_fills_def timed_world_def fill_world_def
  by (auto simp: nth_list_update)

lemma timed_world_two_passes:
  "search (timed_world 2 2) 2147483647 [False, False]
      (new_node (timed_world 2 2) 0 [False, False] 0 2) 0 0
     = Some (Inr (Node 2 [Node 0 [] [1] 1 0 (1 / 4) 1 0 None,
                          Node 1 [] [0] 1 1 (1 / 4) 1 0 None] [] 0 2 (1 / 4) 2 2 None, 2, 2))"
proof -
  have p1: "iteration (timed_world 2 2) [False, False]
       (new_node (timed_world 2 2) 0 [False, False] 0 2) 0
     = Some (Inr \<lparr> pass_root = Node 1 [Node 0 [] [1] 1 0 (1 / 4) 1 0 None] [1] 0 2 (1 / 4) 1 1 None,
                    pass_engine = 1, pass_node = [0], pass_winner = 0, pass_plies = 1 \<rparr>)"
    by (simp add: pass_defs timed_world_def)
  have p2: "iteration (timed_world 2 2) [False, False]
       (Node 1 [Node 0 [] [1] 1 0 (1 / 4) 1 0 None] [1] 0 2 (1 / 4) 1 1 None) 1
     = Some (Inr \<lparr> pass_root = Node 2 [Node 0 [] [1] 1 0 (1 / 4) 1 0 None,
                                         Node 1 [] [0] 1 1 (1 / 4) 1 0 None] [] 0 2 (1 / 4) 2 2 None,
                    pass_engine = 2, pass_node = [1], pass_winner = 0, pass_plies = 1 \<rparr>)"
    by (simp add: pass_defs timed_world_def)
  have c: "clock (timed_world 2 2) (Suc 0) < 1" "\<not> clock (timed_world 2 2) (Suc (Suc 0)) < 1"
    by (simp_all add: timed_world_def)
  from p1 p2 c show ?thesis
    by (simp add: search.simps [of _ _ _ _ _ 0] search.simps [of _ _ _ _ _ "Suc 0"] INT_MAX_def)
qed











subsection \<open>Three cells, one of them closed to Black\<close>









section \<open>Backpropagation updates every node of the path once\<close>



section \<open>The counters of a node\<close>

text \<open>
  C8.  In every tree that the search holds, at any point, every node has at most
  as many wins as visits.
\<close>

theorem wins_le_visits:
  assumes "during_search W state t" and "valid_path t q"
  shows "node_wins (node_at t q) \<le> node_visits (node_at t q)"
  using assms
proof (induction arbitrary: q rule: during_search.induct)
  case (created e bw pos)
  then show ?case by (cases q) simp_all
next
  case (scored t p n' i)
  have "forget_scores n' = forget_scores (node_at t p)"
    using get_UCT_child_Inr(2) [OF scored.hyps(3)] .
  then have fg: "forget_scores (modify_at (\<lambda>_. n') p t) = forget_scores t"
    using forget_scores_modify_at [where f = "\<lambda>_. n'", OF scored.hyps(2)] by simp
  note f = forget_eq_fields [OF fg]
  from scored.prems f(1) have vq: "valid_path t q" by simp
  from scored.IH [OF vq] f(2) [OF vq] f(3) [OF vq] show ?case by simp
next
  case (selected t t' p b)
  from select_frame [OF selected.hyps(2)] have fg: "forget_scores t' = forget_scores t" by simp
  note f = forget_eq_fields [OF fg]
  from selected.prems f(1) have vq: "valid_path t q" by simp
  from selected.IH [OF vq] f(2) [OF vq] f(3) [OF vq] show ?case by simp
next
  case (expanded t p e b t' p' b')
  note ex = expansion_frame [OF expanded.hyps(3) expanded.hyps(2)]
  from ex(6) [OF expanded.prems] show ?case
  proof
    assume vq: "valid_path t q"
    from expanded.IH [OF vq] ex(3) [OF vq] ex(4) [OF vq] show ?thesis by simp
  next
    assume q: "q = p'"
    show ?thesis
    proof (cases "p' = p")
      case True
      with q expanded.hyps(2) have vq: "valid_path t q" by simp
      from expanded.IH [OF vq] ex(3) [OF vq] ex(4) [OF vq] show ?thesis by simp
    next
      case False
      with ex(7) q show ?thesis by simp
    qed
  qed
next
  case (updated t p winner)
  show ?case
    by (rule wins_le_visits_update_at [OF updated.IH updated.hyps(2) updated.prems])
qed

theorem wins_le_visits_witness:
  "during_search (fill_world 2) [False, False]
     (Node 1 [Node 0 [] [1] 1 0 (1 / 4) 1 0 None] [1] 0 2 (1 / 4) 1 1 None)
   \<and> valid_path (Node 1 [Node 0 [] [1] 1 0 (1 / 4) 1 0 None] [1] 0 2 (1 / 4) 1 1 None :: (nat, real) node) []
   \<and> node_wins (node_at (Node 1 [Node 0 [] [1] 1 0 (1 / 4) 1 0 None] [1] 0 2 (1 / 4) 1 1 None :: (nat, real) node) [])
       \<le> node_visits (node_at (Node 1 [Node 0 [] [1] 1 0 (1 / 4) 1 0 None] [1] 0 2 (1 / 4) 1 1 None :: (nat, real) node) [])"
  using wins_le_visits [OF pass_start_during_search [OF fill_world_first_tree], of "[]"]
    pass_start_during_search [OF fill_world_first_tree]
  by simp

text \<open>
  C10.  At the start of every pass, every child of every node of the tree has been
  visited at least once; these are the children that \<open>get_UCT_child\<close> divides by
  when the selection of that pass calls it.
\<close>

theorem children_visited_before_selection:
  assumes "pass_start W state t" and "valid_path t p"
    and "c \<in> set (node_children (node_at t p))"
  shows "1 \<le> node_visits c"
proof -
  from assms(3) obtain i where i: "i < length (node_children (node_at t p))"
    and c: "c = node_children (node_at t p) ! i" by (auto simp: in_set_conv_nth)
  from assms(2) i have v: "valid_path t (p @ [i])" by (simp add: valid_path_append)
  from assms(2) c have "node_at t (p @ [i]) = c" by (simp add: node_at_append)
  with pass_start_visited [OF assms(1) v] show ?thesis by simp
qed

theorem children_visited_before_selection_witness:
  "pass_start (fill_world 2) [False, False]
     (Node 1 [Node 0 [] [1] 1 0 (1 / 4) 1 0 None] [1] 0 2 (1 / 4) 1 1 None)
   \<and> valid_path (Node 1 [Node 0 [] [1] 1 0 (1 / 4) 1 0 None] [1] 0 2 (1 / 4) 1 1 None :: (nat, real) node) []
   \<and> Node 0 [] [1] 1 0 (1 / 4) 1 0 None
       \<in> set (node_children (node_at (Node 1 [Node 0 [] [1] 1 0 (1 / 4) 1 0 None] [1] 0 2 (1 / 4) 1 1 None :: (nat, real) node) []))
   \<and> 1 \<le> node_visits (Node 0 [] [1] 1 0 (1 / 4) 1 0 None :: (nat, real) node)"
  using children_visited_before_selection [OF fill_world_first_tree,
      of "[]" "Node 0 [] [1] 1 0 (1 / 4) 1 0 None"] fill_world_first_tree
  by simp

section \<open>The rollout\<close>

text \<open>
  C7.  On a board whose legal placements each take one empty cell for good, and
  with draws inside their range, the rollout leaves its loop after at most
  \<open>size_xy\<close> plies, from every board, engine and player to act.
\<close>

theorem rollout_within_cells:
  assumes "board_fills W empties" and "draws_in_range W"
  shows "\<exists>e' bw' k. rollout W e b bw 0 = Some (Inr (e', bw', k)) \<and> k \<le> size_xy W"
proof -
  from rollout_bounded [OF assms, of e b bw 0] obtain e' bw' k
    where r: "rollout W e b bw 0 = Some (Inr (e', bw', k))" and k: "k \<le> card (empties b)"
    by auto
  from assms(1) have "empties b \<subseteq> {..<size_xy W}" unfolding board_fills_def by blast
  then have "card (empties b) \<le> card {..<size_xy W}" by (intro card_mono) simp_all
  with r k show ?thesis by auto
qed

theorem rollout_within_cells_witness:
  "board_fills (fill_world 2) (\<lambda>b. {i. i < 2 \<and> i < length b \<and> \<not> b ! i})
   \<and> draws_in_range (fill_world 2)
   \<and> rollout (fill_world 2) 0 [False, False] 0 0 = Some (Inr (2, 0, 2))
   \<and> (2::nat) \<le> size_xy (fill_world 2)"
proof -
  have r: "rollout (fill_world 2) 0 [False, False] 0 0 = Some (Inr (2, 0, 2))"
    by (simp add: rollout.simps legal_positions_def fill_world_def colour_def upt_rec)
  from rollout_within_cells [OF fill_world_fills fill_world_draws, of 2 0 "[False, False]" 0]
  show ?thesis using r fill_world_fills [of 2] fill_world_draws [of 2] by auto
qed

section \<open>The child chosen by UCT\<close>

text \<open>
  C3, as the code has it.  On a node with at least one child, \<open>get_UCT_child\<close>
  returns a child whose score
  \<open>wins / visits + sqrt (log (visits of the node) / visits) * C\<close>, computed in
  \<^verbatim>\<open>double\<close> as the source computes it, is below the score of no child, and no
  child before it in the vector has the same score.  Where the scores are ordered
  as numbers are (whenever one score is below another, every third score is above
  the one or below the other; only a NaN among them breaks this), every child
  before it has a score strictly below.
  The call is not free of effects: it assigns \<^verbatim>\<open>uct_score_\<close> of every child.  It
  changes nothing else, and a second call returns the same child and leaves the
  node as the first call left it.
\<close>

theorem get_UCT_child_first_best:
  assumes "node_children n \<noteq> []" and "less_is_strict W"
  shows "\<exists>n' i. get_UCT_child W n = Inr (n', i) \<and> i < length (node_children n)
    \<and> (\<forall>j < length (node_children n).
          \<not> d_less W (uct W (node_visits n) (node_exploration_constant n) (node_children n ! i))
                       (uct W (node_visits n) (node_exploration_constant n) (node_children n ! j)))
    \<and> (\<forall>j < i.
          uct W (node_visits n) (node_exploration_constant n) (node_children n ! j)
          \<noteq> uct W (node_visits n) (node_exploration_constant n) (node_children n ! i))
    \<and> ((\<forall>c1 \<in> set (node_children n). \<forall>c2 \<in> set (node_children n). \<forall>c3 \<in> set (node_children n).
           d_less W (uct W (node_visits n) (node_exploration_constant n) c1)
                    (uct W (node_visits n) (node_exploration_constant n) c3) \<longrightarrow>
           d_less W (uct W (node_visits n) (node_exploration_constant n) c1)
                    (uct W (node_visits n) (node_exploration_constant n) c2)
           \<or> d_less W (uct W (node_visits n) (node_exploration_constant n) c2)
                      (uct W (node_visits n) (node_exploration_constant n) c3))
        \<longrightarrow> (\<forall>j < i.
               d_less W (uct W (node_visits n) (node_exploration_constant n) (node_children n ! j))
                        (uct W (node_visits n) (node_exploration_constant n) (node_children n ! i))))
    \<and> node_children n'
        = map (\<lambda>c. set_uct_score (Some (uct W (node_visits n) (node_exploration_constant n) c)) c)
            (node_children n)
    \<and> forget_scores n' = forget_scores n
    \<and> get_UCT_child W n' = Inr (n', i)"
proof -
  let ?sc = "\<lambda>j. uct W (node_visits n) (node_exploration_constant n) (node_children n ! j)"
  let ?u = "\<lambda>c. uct W (node_visits n) (node_exploration_constant n) c"
  from get_UCT_child_maximal [OF assms] obtain n' i
    where g: "get_UCT_child W n = Inr (n', i)" and i: "i < length (node_children n)"
      and n': "n' = set_children (map (\<lambda>c. set_uct_score
          (Some (uct W (node_visits n) (node_exploration_constant n) c)) c) (node_children n)) n"
      and mx: "\<forall>j < length (node_children n). \<not> d_less W (?sc i) (?sc j)"
      and fs: "\<forall>j < i. ?sc j \<noteq> ?sc i"
      and tot: "(\<forall>c1 \<in> set (node_children n). \<forall>c2 \<in> set (node_children n).
            \<forall>c3 \<in> set (node_children n).
              d_less W (?u c1) (?u c3) \<longrightarrow> d_less W (?u c1) (?u c2) \<or> d_less W (?u c2) (?u c3))
          \<longrightarrow> (\<forall>j < i. d_less W (?sc j) (?sc i))"
    by blast
  have ch: "node_children n' = map (\<lambda>c. set_uct_score
      (Some (uct W (node_visits n) (node_exploration_constant n) c)) c) (node_children n)"
    unfolding n' by simp
  from g i mx fs tot ch get_UCT_child_Inr(2) [OF g] get_UCT_child_idempotent [OF g]
  show ?thesis by blast
qed

theorem get_UCT_child_first_best_witness:
  "node_children (Node 0 [Node 0 [] [] 1 0 (1 / 4) 2 0 None, Node 0 [] [] 1 1 (1 / 4) 1 1 None]
      [] 0 2 (1 / 4) 3 0 None :: (nat, real) node) \<noteq> []
   \<and> less_is_strict (fill_world 2)
   \<and> get_UCT_child (fill_world 2)
        (Node 0 [Node 0 [] [] 1 0 (1 / 4) 2 0 None, Node 0 [] [] 1 1 (1 / 4) 1 1 None]
           [] 0 2 (1 / 4) 3 0 None)
     = Inr (Node 0 [Node 0 [] [] 1 0 (1 / 4) 2 0 (Some (sqrt (ln 3 / 2) * (1 / 4))),
                    Node 0 [] [] 1 1 (1 / 4) 1 1 (Some (1 + sqrt (ln 3) * (1 / 4)))]
              [] 0 2 (1 / 4) 3 0 None, 1)
   \<and> sqrt (ln 3 / 2) * (1 / 4) < 1 + sqrt (ln (3 :: real)) * (1 / 4)"
proof -
  let ?n = "Node 0 [Node 0 [] [] 1 0 (1 / 4) 2 0 None, Node 0 [] [] 1 1 (1 / 4) 1 1 None]
      [] 0 2 (1 / 4) 3 0 None :: (nat, real) node"
  have g: "get_UCT_child (fill_world 2) ?n
     = Inr (Node 0 [Node 0 [] [] 1 0 (1 / 4) 2 0 (Some (sqrt (ln 3 / 2) * (1 / 4))),
                    Node 0 [] [] 1 1 (1 / 4) 1 1 (Some (1 + sqrt (ln 3) * (1 / 4)))]
              [] 0 2 (1 / 4) 3 0 None, 1)"
    using sqrt_ln_3 by (simp add: get_UCT_child_def uct_def max_element_def fill_world_def)
  have ne: "node_children ?n \<noteq> []" by simp
  from get_UCT_child_first_best [OF ne fill_world_less [of 2]] g sqrt_ln_3 fill_world_less [of 2]
  show ?thesis by simp
qed

text \<open>
  The claim as stated fails on the effect.  On a board of one cell the search of
  the player of colour 1, with \<open>cycles = 1\<close>, ends with the tree below: its second
  pass has stored the score 1 in the child of the root.  A call of
  \<open>get_UCT_child\<close> on that root, such as the third pass would make, changes the
  stored score.
\<close>

theorem get_UCT_child_writes_scores:
  "search (fill_world 1) 1 [False] (new_node (fill_world 1) 0 [False] 0 1) 0 0
     = Some (Inr (Node 1 [Node 0 [] [] 1 0 (1 / 4) 2 2 (Some 1)] [] 0 1 (1 / 4) 2 0 None, 0, 2))
   \<and> get_UCT_child (fill_world 1)
       (Node 1 [Node 0 [] [] 1 0 (1 / 4) 2 2 (Some 1)] [] 0 1 (1 / 4) 2 0 None)
     = Inr (Node 1 [Node 0 [] [] 1 0 (1 / 4) 2 2 (Some (1 + sqrt (ln 2 / 2) * (1 / 4)))]
              [] 0 1 (1 / 4) 2 0 None, 0)
   \<and> Node 1 [Node 0 [] [] 1 0 (1 / 4) 2 2 (Some (1 + sqrt (ln 2 / 2) * (1 / 4)))]
        [] 0 1 (1 / 4) 2 0 None
     \<noteq> (Node 1 [Node 0 [] [] 1 0 (1 / 4) 2 2 (Some 1)] [] 0 1 (1 / 4) 2 0 None :: (nat, real) node)"
proof -
  have "0 < ln (2 :: real) / 2" by simp
  then have "0 < sqrt (ln (2 :: real) / 2)" by (simp only: real_sqrt_gt_0_iff)
  then have a: "1 + sqrt (ln 2 / 2) * (1 / 4) \<noteq> (1 :: real)" by simp
  have b: "get_UCT_child (fill_world 1)
       (Node 1 [Node 0 [] [] 1 0 (1 / 4) 2 2 (Some 1)] [] 0 1 (1 / 4) 2 0 None)
     = Inr (Node 1 [Node 0 [] [] 1 0 (1 / 4) 2 2 (Some (1 + sqrt (ln 2 / 2) * (1 / 4)))]
              [] 0 1 (1 / 4) 2 0 None, 0)"
    by (simp add: get_UCT_child_def uct_def max_element_def fill_world_def)
  from a b fill_world_one_cell show ?thesis by simp
qed

section \<open>A node without children\<close>

text \<open>
  C9, as the code has it.  \<open>get_UCT_child\<close> makes no check: on a node without
  children it dereferences \<^verbatim>\<open>end()\<close>, which is undefined and not an error that is
  raised.  On a node with a child it returns one, and the selection loop, which
  tests \<^verbatim>\<open>has_children()\<close> before each call, never reaches the undefined case.
\<close>

theorem get_UCT_child_unchecked:
  "(node_children n = [] \<longrightarrow> get_UCT_child W n = Inl Past_the_end)
   \<and> (node_children n \<noteq> [] \<longrightarrow> (\<exists>n' i. get_UCT_child W n = Inr (n', i)))
   \<and> (\<exists>t' p b'. select W t b = Inr (t', p, b'))"
  using get_UCT_child_total [of n W] select_total [of W t b]
  by (auto simp: get_UCT_child_def max_element_def)

theorem get_UCT_child_unchecked_witness:
  "node_children (Node 0 [] [] 0 2 (1 / 4) 0 0 None :: (nat, real) node) = []
   \<and> get_UCT_child (fill_world 2) (Node 0 [] [] 0 2 (1 / 4) 0 0 None) = Inl Past_the_end
   \<and> select (fill_world 2) (Node 0 [] [] 0 2 (1 / 4) 0 0 None) [True, True]
       = Inr (Node 0 [] [] 0 2 (1 / 4) 0 0 None, [], [True, True])"
  using get_UCT_child_unchecked [of "Node 0 [] [] 0 2 (1 / 4) 0 0 None"
      "fill_world 2" "Node 0 [] [] 0 2 (1 / 4) 0 0 None" "[True, True]"]
  by (simp add: select.simps has_children_def)

theorem get_UCT_child_no_children:
  "get_UCT_child (fill_world 2) (Node 0 [] [] 0 2 (1 / 4) 0 0 None) = Inl Past_the_end"
  by (simp add: get_UCT_child_def max_element_def)

section \<open>The number of passes\<close>

text \<open>
  C6.  For every \<open>cycles\<close> from 0 to \<open>INT_MAX\<close>, on a board that fills and with
  draws in range, the loop ends after at least one and at most \<open>cycles + 1\<close>
  passes, and after exactly \<open>cycles + 1\<close> when the clock stays below the threshold
  for the first \<open>cycles\<close> passes.  With \<open>cycles = INT_MAX\<close> the test
  \<^verbatim>\<open>itr<=cycles\<close> cannot end the loop, the clock has to: there the statement is for
  a clock that reaches the threshold within \<open>INT_MAX\<close> passes, that is for a
  machine that does not make \<open>2 ^ 31\<close> passes in the second of the budget (on one
  that does, \<^verbatim>\<open>itr++\<close> overflows: \<open>search_overflows\<close>).
\<close>

theorem search_pass_count:
  assumes "board_fills W empties" and "draws_in_range W" and "0 \<le> cyc" and "cyc \<le> INT_MAX"
    and "cyc = INT_MAX \<longrightarrow> (\<exists>j. 0 < j \<and> int j \<le> INT_MAX \<and> 1 \<le> clock W j)"
  shows "\<exists>t' e' k. search W cyc state t e 0 = Some (Inr (t', e', k))
    \<and> 1 \<le> k \<and> int k \<le> cyc + 1
    \<and> ((\<forall>j. 0 < j \<and> int j \<le> cyc \<longrightarrow> clock W j < 1) \<longrightarrow> int k = cyc + 1)"
proof -
  have tot: "\<exists>r. iteration W state t e = Some (Inr r)" for t e
    by (rule iteration_total [OF assms(1,2)])
  have "\<exists>t' e' k. search W cyc state t e 0 = Some (Inr (t', e', k))"
  proof (cases "cyc = INT_MAX")
    case False
    with assms(4) have "cyc < INT_MAX" by simp
    from search_returns [OF tot this, of 0 t e] show ?thesis by (auto simp: INT_MAX_def)
  next
    case True
    with assms(5) obtain j where j: "0 < j" "int j \<le> INT_MAX" "1 \<le> clock W j" by blast
    then have "\<not> (clock W j < 1 \<and> int j \<le> cyc)" by simp
    from search_returns_by [OF tot j(1,2) this, of t e] show ?thesis by blast
  qed
  then obtain t' e' k where s: "search W cyc state t e 0 = Some (Inr (t', e', k))" by blast
  from search_count [OF s] assms(3) s show ?thesis by auto
qed

theorem search_pass_count_witness:
  "board_fills (fill_world 2) (\<lambda>b. {i. i < 2 \<and> i < length b \<and> \<not> b ! i})
   \<and> draws_in_range (fill_world 2) \<and> (0::int) \<le> 1 \<and> 1 \<le> INT_MAX
   \<and> search (fill_world 2) 1 [False, False] (new_node (fill_world 2) 0 [False, False] 0 2) 0 0
       = Some (Inr (Node 2 [Node 0 [] [1] 1 0 (1 / 4) 1 0 None,
                            Node 1 [] [0] 1 1 (1 / 4) 1 0 None] [] 0 2 (1 / 4) 2 2 None, 2, 2))
   \<and> board_fills (timed_world 2 2) (\<lambda>b. {i. i < 2 \<and> i < length b \<and> \<not> b ! i})
   \<and> draws_in_range (timed_world 2 2)
   \<and> 1 \<le> clock (timed_world 2 2) 2
   \<and> search (timed_world 2 2) INT_MAX [False, False]
         (new_node (timed_world 2 2) 0 [False, False] 0 2) 0 0
       = Some (Inr (Node 2 [Node 0 [] [1] 1 0 (1 / 4) 1 0 None,
                            Node 1 [] [0] 1 1 (1 / 4) 1 0 None] [] 0 2 (1 / 4) 2 2 None, 2, 2))"
proof -
  have i: "(0::int) \<le> 1" "1 \<le> INT_MAX" "(1::int) = INT_MAX \<longrightarrow>
      (\<exists>j. 0 < j \<and> int j \<le> INT_MAX \<and> 1 \<le> clock (fill_world 2) j)"
    by (simp_all add: INT_MAX_def)
  have c: "1 \<le> clock (timed_world 2 2) 2" by (simp add: timed_world_def)
  then have j: "INT_MAX = INT_MAX \<longrightarrow>
      (\<exists>j. 0 < j \<and> int j \<le> INT_MAX \<and> 1 \<le> clock (timed_world 2 2) j)"
    by (intro impI exI [of _ 2]) (simp add: INT_MAX_def)
  have m: "(0::int) \<le> INT_MAX" by (simp add: INT_MAX_def)
  from search_pass_count [where W = "fill_world 2" and cyc = 1 and state = "[False, False]"
        and t = "new_node (fill_world 2) 0 [False, False] 0 2" and e = 0,
      OF fill_world_fills fill_world_draws i]
    search_pass_count [where W = "timed_world 2 2" and cyc = INT_MAX and state = "[False, False]"
        and t = "new_node (timed_world 2 2) 0 [False, False] 0 2" and e = 0,
      OF timed_world_fills timed_world_draws m order_refl j]
    fill_world_two_passes timed_world_two_passes c i(2)
    fill_world_fills [of 2] fill_world_draws [of 2] timed_world_fills [of 2 2]
    timed_world_draws [of 2 2]
  show ?thesis by (simp add: INT_MAX_def)
qed

section \<open>The move that is played\<close>




section \<open>The exploration constant\<close>

text \<open>
  C4.  The constructor parses \<^verbatim>\<open>exp\<close> into \<^verbatim>\<open>MCTS_player::exploration_constant\<close>
  and announces it, but \<open>get_UCT_child\<close> reads \<^verbatim>\<open>Node::exploration_constant\<close>,
  which every node initialises to 0.25 and nothing writes.  With
  \<^verbatim>\<open>role=black T=1 exp=1.0\<close> the player holds 1; after its two passes on the
  small world the score that \<open>get_UCT_child\<close> stores in each child of the root is
  \<open>sqrt (ln 2) * (1 / 4)\<close>, not \<open>sqrt (ln 2) * 1\<close>.
\<close>

theorem exp_option_not_used:
  "MCTS_player_ctor (fill_world 2) (\<lambda>s. if s = ''1'' then Some 1 else None)
      (\<lambda>s. if s = ''1.0'' then Some 1 else None) 2 (0 :: nat)
      [''name'' \<mapsto> ''mcts'', ''role'' \<mapsto> ''black'', ''T'' \<mapsto> ''1'', ''exp'' \<mapsto> ''1.0'']
     = Inr \<lparr> engine = 0, space_size = 2, who = 1, cycles = 1, exploration_constant = 1 \<rparr>
   \<and> search (fill_world 2) 1 [False, False] (new_node (fill_world 2) 0 [False, False] (one_minus 1) 2) 0 0
     = Some (Inr (Node 2 [Node 0 [] [1] 1 0 (1 / 4) 1 0 None,
                          Node 1 [] [0] 1 1 (1 / 4) 1 0 None] [] 0 2 (1 / 4) 2 2 None, 2, 2))
   \<and> get_UCT_child (fill_world 2) (Node 2 [Node 0 [] [1] 1 0 (1 / 4) 1 0 None,
                             Node 1 [] [0] 1 1 (1 / 4) 1 0 None] [] 0 2 (1 / 4) 2 2 None :: (nat, real) node)
     = Inr (Node 2 [Node 0 [] [1] 1 0 (1 / 4) 1 0 (Some (sqrt (ln 2) * (1 / 4))),
                    Node 1 [] [0] 1 1 (1 / 4) 1 0 (Some (sqrt (ln 2) * (1 / 4)))] [] 0 2 (1 / 4) 2 2 None, 0)
   \<and> sqrt (ln 2) * (1 / 4) \<noteq> sqrt (ln 2) * (1 :: real)"
proof -
  have a: "MCTS_player_ctor (fill_world 2) (\<lambda>s. if s = ''1'' then Some 1 else None)
      (\<lambda>s. if s = ''1.0'' then Some 1 else None) 2 (0 :: nat)
      [''name'' \<mapsto> ''mcts'', ''role'' \<mapsto> ''black'', ''T'' \<mapsto> ''1'', ''exp'' \<mapsto> ''1.0'']
     = Inr \<lparr> engine = 0, space_size = 2, who = 1, cycles = 1, exploration_constant = 1 \<rparr>"
    by (simp add: MCTS_player_ctor_def)
  have b: "get_UCT_child (fill_world 2) (Node 2 [Node 0 [] [1] 1 0 (1 / 4) 1 0 None,
                             Node 1 [] [0] 1 1 (1 / 4) 1 0 None] [] 0 2 (1 / 4) 2 2 None :: (nat, real) node)
     = Inr (Node 2 [Node 0 [] [1] 1 0 (1 / 4) 1 0 (Some (sqrt (ln 2) * (1 / 4))),
                    Node 1 [] [0] 1 1 (1 / 4) 1 0 (Some (sqrt (ln 2) * (1 / 4)))] [] 0 2 (1 / 4) 2 2 None, 0)"
    by (simp add: get_UCT_child_def uct_def max_element_def fill_world_def)
  have "0 < ln (2 :: real)" by simp
  then have "0 < sqrt (ln (2 :: real))" by simp
  then have c: "sqrt (ln 2) * (1 / 4) \<noteq> sqrt (ln 2) * (1 :: real)" by simp
  from a b c fill_world_two_passes show ?thesis by simp
qed

section \<open>Where the random numbers come from\<close>

text \<open>
  C5, as the code has it.  In a pass, the engine of the player is read by the
  rollout, which starts from it as the pass found it and leaves it advanced, and
  by \<open>add_child\<close>, which copies it into the new child.  The move that the
  expansion pops is drawn from the engine stored in the node that is expanded, a
  copy made when that node was constructed, and only that copy advances.  No other
  stored engine changes.
\<close>

theorem draws_of_a_pass:
  fixes W :: "('b, 'g, 'd) world"
  assumes it: "iteration W state t e = Some (Inr r)"
  shows "(\<exists>b bw bw'. rollout W e b bw 0 = Some (Inr (pass_engine r, bw', pass_plies r)))
    \<and> (valid_path t (pass_node r) \<longrightarrow>
         (\<forall>q. valid_path t q \<longrightarrow> node_engine (node_at (pass_root r) q) = node_engine (node_at t q)))
    \<and> (\<not> valid_path t (pass_node r) \<longrightarrow>
         node_engine (node_at (pass_root r) (pass_node r)) = e
       \<and> (\<exists>k. uniform_int W (length (node_moves (node_at t (butlast (pass_node r)))) - 1)
                   (node_engine (node_at t (butlast (pass_node r))))
                 = (k, node_engine (node_at (pass_root r) (butlast (pass_node r))))
              \<and> node_pos (node_at (pass_root r) (pass_node r))
                 = node_moves (node_at t (butlast (pass_node r))) ! k)
       \<and> (\<forall>q. valid_path t q \<and> q \<noteq> butlast (pass_node r) \<longrightarrow>
              node_engine (node_at (pass_root r) q) = node_engine (node_at t q)))"
  using it
proof (cases rule: iteration_Inr)
  case (1 t1 p1 b1 t2 b2 bw)
  let ?p = "pass_node r"
  from select_frame [OF 1(1)] have fg: "forget_scores t1 = forget_scores t" and vp1: "valid_path t1 p1"
    by simp_all
  have v1: "valid_path t1 q = valid_path t q" for q by (rule forget_eq_fields(1) [OF fg])
  have e1: "node_engine (node_at t1 q) = node_engine (node_at t q)" if "valid_path t q" for q
    using forget_eq_static [where g = node_engine, OF fg _ that] by simp
  have m1: "node_moves (node_at t1 q) = node_moves (node_at t q)" if "valid_path t q" for q
    using forget_eq_static [where g = node_moves, OF fg _ that] by simp
  note fr = expansion_frame [OF 1(2) vp1]
  have v2: "valid_path t2 ?p" by (rule fr(1))
  have be: "node_engine (node_at (pass_root r) q) = node_engine (node_at t2 q)" if "valid_path t2 q" for q
    unfolding 1(5) using backpropagate_static [where g = node_engine, OF _ _ v2 that] by simp
  have bp: "node_pos (node_at (pass_root r) q) = node_pos (node_at t2 q)" if "valid_path t2 q" for q
    unfolding 1(5) using backpropagate_static [where g = node_pos, OF _ _ v2 that] by simp
  have a: "\<exists>b bw bw'. rollout W e b bw 0 = Some (Inr (pass_engine r, bw', pass_plies r))"
    using 1(3) by blast
  from 1(2) show ?thesis
  proof (cases rule: expansion_cases)
    case stay
    from stay(3) vp1 v1 have vt: "valid_path t ?p" by simp
    have "node_engine (node_at (pass_root r) q) = node_engine (node_at t q)" if vq: "valid_path t q" for q
    proof -
      from vq v1 stay(2) have "valid_path t2 q" by simp
      from be [OF this] stay(2) e1 [OF vq] show ?thesis by simp
    qed
    with a vt show ?thesis by simp
  next
    case (grow bw' pos node1)
    let ?n = "node_at t1 p1"
    let ?c = "new_node W e b2 bw' pos"
    let ?n2 = "set_children (node_children node1 @ [?c]) node1"
    let ?f = "\<lambda>_::('g, 'd) node. ?n2"
    note pop = pop_untried_move_Inr [OF grow(2)]
    have ch: "node_children (?f ?n) = node_children ?n @ [?c]" using pop(1) by simp
    have bl: "butlast ?p = p1" using grow(5) by simp
    from vp1 v1 have vtp1: "valid_path t p1" by simp
    have nv1: "\<not> valid_path t1 ?p"
      unfolding grow(5) using vp1 pop(1) by (simp add: valid_path_append)
    with v1 have nv: "\<not> valid_path t ?p" by simp
    have v2p1: "valid_path t2 p1" by (rule fr(2) [OF vp1])
    have at_p1: "node_at t2 p1 = ?n2" unfolding grow(4) using vp1 by (rule node_at_modify_at_same)
    have at_p: "node_at t2 ?p = ?c" unfolding grow(5) using v2p1 at_p1 by (simp add: node_at_append)
    have b: "node_engine (node_at (pass_root r) ?p) = e" using be [OF v2] at_p by simp
    from pop(6) obtain k where k: "uniform_int W (length (node_moves ?n) - 1) (node_engine ?n)
        = (k, node_engine node1)" and pk: "pos = node_moves ?n ! k" by blast
    have c: "uniform_int W (length (node_moves (node_at t p1)) - 1) (node_engine (node_at t p1))
        = (k, node_engine (node_at (pass_root r) p1))
      \<and> node_pos (node_at (pass_root r) ?p) = node_moves (node_at t p1) ! k"
      using k pk be [OF v2p1] bp [OF v2] at_p1 at_p e1 [OF vtp1] m1 [OF vtp1] by simp
    have d: "node_engine (node_at (pass_root r) q) = node_engine (node_at t q)"
      if vq: "valid_path t q" and ne: "q \<noteq> p1" for q
    proof -
      from vq v1 have vq1: "valid_path t1 q" by simp
      have "node_engine (node_at t2 q) = node_engine (node_at t1 q)"
        unfolding grow(4)
        using node_at_modify_at_field [where f = ?f and g = node_engine, OF vp1 vq1 ch] ne by simp
      with be [OF fr(2) [OF vq1]] e1 [OF vq] show ?thesis by simp
    qed
    from a nv b c d bl show ?thesis by auto
  qed
qed

theorem draws_of_a_pass_witness:
  "iteration (skip_world 3) [False, False, False]
     (Node 3 [Node 2 [] [0, 2] 1 1 (1 / 4) 1 1 None] [0, 2] 0 3 (1 / 4) 1 0 None) 4
   = Some (Inr \<lparr> pass_root = Node 4 [Node 2 [] [0, 2] 1 1 (1 / 4) 1 1 None,
                                       Node 4 [] [0, 1] 1 2 (1 / 4) 1 1 None] [0] 0 3 (1 / 4) 2 0 None,
                  pass_engine = 6, pass_node = [1], pass_winner = 1, pass_plies = 2 \<rparr>)
   \<and> \<not> valid_path (Node 3 [Node 2 [] [0, 2] 1 1 (1 / 4) 1 1 None] [0, 2] 0 3 (1 / 4) 1 0 None :: (nat, real) node) [1]
   \<and> uniform_int (skip_world 3) 1 3 = (1, 4)
   \<and> rollout (skip_world 3) 4 [False, False, True] 0 0 = Some (Inr (6, 0, 2))"
proof -
  have r: "rollout (skip_world 3) 4 [False, False, True] 0 0 = Some (Inr (6, 0, 2))"
    by (simp add: legal_positions_def fill_world_def skip_world_def colour_def Let_def upt_rec
        rollout.simps numeral_2_eq_2 [symmetric] numeral_3_eq_3 [symmetric])
  have u: "uniform_int (skip_world 3) 1 3 = (1, 4)"
    by (simp add: skip_world_def fill_world_def)
  from draws_of_a_pass [OF skip_world_pass2] skip_world_pass2 r u show ?thesis by simp
qed

text \<open>
  The claim as stated fails: with one shared stream the second expansion of the
  root would draw from the engine as the first rollout left it and pop position
  0; the code draws from the copy in the root and pops position 2, and the move
  returned is a different one.
\<close>

theorem engine_copies_change_the_move:
  "take_action (skip_world 3)
     \<lparr> engine = 2, space_size = 3, who = 1, cycles = 1, exploration_constant = 1 / 4 \<rparr>
     [False, False, False]
   = Some (Inr (Action_place 1 Black,
        \<lparr> engine = 6, space_size = 3, who = 1, cycles = 1, exploration_constant = 1 / 4 \<rparr>))
   \<and> take_action_shared (skip_world 3)
     \<lparr> engine = 2, space_size = 3, who = 1, cycles = 1, exploration_constant = 1 / 4 \<rparr>
     [False, False, False]
   = Some (Inr (Action_place 0 Black,
        \<lparr> engine = 8, space_size = 3, who = 1, cycles = 1, exploration_constant = 1 / 4 \<rparr>))"
  using skip_world_search skip_world_search_shared
  by (simp add: take_action_def take_action_shared_def best_action_def max_element_def
      colour_def to_float_def)

end
